theory Spec2Isabelle
  imports Main "HOL-Library.Word" "HOL-Library.Signed_Division"
begin

section \<open>Data model of the thread pool\<close>

text \<open>
  The C++ \<^verbatim>\<open>int\<close> and \<^verbatim>\<open>std::atomic_int\<close> fields are 32-bit two's complement
  values: they are words of length 32, read through \<open>sint\<close> and compared with the
  signed orders \<open><s\<close> and \<open>\<le>s\<close>. \<^verbatim>\<open>size_t\<close> is taken to be 64 bits wide.
\<close>

type_synonym int32 = "32 word"

definition INT32_MAX :: int32 where
  "INT32_MAX = 2147483647"

definition TASK_MAX_THRESHHOLD :: int32 where
  "TASK_MAX_THRESHHOLD = INT32_MAX"

definition THREAD_MAX_THRESHHOLD :: int32 where
  "THREAD_MAX_THRESHHOLD = 1024"

definition THREAD_MAX_IDLE_TIME :: int where
  "THREAD_MAX_IDLE_TIME = 60"

text \<open>
  The conversion \<^verbatim>\<open>(size_t)x\<close> of an \<^verbatim>\<open>int\<close>: the value congruent to \<open>x\<close> modulo
  \<open>2 ^ 64\<close> in the range of \<^verbatim>\<open>size_t\<close>.
\<close>

definition to_size_t :: "int32 \<Rightarrow> nat" where
  "to_size_t x = nat (sint x mod 18446744073709551616)"

datatype PoolMode = MODE_FIXED | MODE_CACHED

text \<open>
  Class \<^verbatim>\<open>ThreadPool\<close>. The registry \<^verbatim>\<open>threads_\<close> maps a thread id to the \<^verbatim>\<open>Thread\<close>
  object created with that id; a \<^verbatim>\<open>Thread\<close> holds nothing but its id and the bound
  thread function, so the model keeps the set of keys. \<^verbatim>\<open>taskQue_\<close> is a \<^verbatim>\<open>std::queue\<close>:
  \<^verbatim>\<open>emplace\<close> appends at the back, \<^verbatim>\<open>front\<close>/\<^verbatim>\<open>pop\<close> work at the head of the list.
  \<^verbatim>\<open>generateId_\<close> is the static counter of class \<^verbatim>\<open>Thread\<close>, kept in the same record.
  Field names drop the trailing underscore of the C++ members.
  The mutex and the condition variables carry no data; what they do is modelled by the
  atomicity of the functions below and by the wait functions.
\<close>

record 'task ThreadPool =
  threads :: "int32 set"
  initThreadSize :: int32
  threadSizeThreshHold :: int32
  curThreadSize :: int32
  idleThreadSize :: int32
  taskQue :: "'task list"
  taskSize :: int32
  taskQueMaxThreshHold :: int32
  poolMode :: PoolMode
  isPoolRunning :: bool
  generateId :: int32

text \<open>The constructor \<^verbatim>\<open>ThreadPool::ThreadPool()\<close>; \<^verbatim>\<open>Thread::generateId_\<close> starts at 0.\<close>

definition ThreadPool_new :: "'task ThreadPool" where
  "ThreadPool_new =
     \<lparr> threads = {},
       initThreadSize = 0,
       threadSizeThreshHold = THREAD_MAX_THRESHHOLD,
       curThreadSize = 0,
       idleThreadSize = 0,
       taskQue = [],
       taskSize = 0,
       taskQueMaxThreshHold = TASK_MAX_THRESHHOLD,
       poolMode = MODE_FIXED,
       isPoolRunning = False,
       generateId = 0 \<rparr>"

definition checkRunningState :: "'task ThreadPool \<Rightarrow> bool" where
  "checkRunningState p = isPoolRunning p"

definition setMode :: "PoolMode \<Rightarrow> 'task ThreadPool \<Rightarrow> 'task ThreadPool" where
  "setMode mode p = (if checkRunningState p then p else p\<lparr>poolMode := mode\<rparr>)"

definition setTaskQueMaxThreshHold :: "int32 \<Rightarrow> 'task ThreadPool \<Rightarrow> 'task ThreadPool" where
  "setTaskQueMaxThreshHold threshhold p =
     (if checkRunningState p then p else p\<lparr>taskQueMaxThreshHold := threshhold\<rparr>)"

definition setThreadSizeThreshHold :: "int32 \<Rightarrow> 'task ThreadPool \<Rightarrow> 'task ThreadPool" where
  "setThreadSizeThreshHold threshhold p =
     (if checkRunningState p then p
      else if poolMode p = MODE_CACHED then p\<lparr>threadSizeThreshHold := threshhold\<rparr>
      else p)"


section \<open>Threads\<close>

text \<open>
  The constructor \<^verbatim>\<open>Thread::Thread\<close> takes \<^verbatim>\<open>threadId_(generateId_++)\<close>: it returns the
  new thread's id and the counter after the increment. \<^verbatim>\<open>generateId_\<close> is a plain
  \<^verbatim>\<open>int\<close>, so incrementing it at \<^verbatim>\<open>INT32_MAX\<close> is undefined behaviour: no result.
\<close>

definition Thread_new :: "int32 \<Rightarrow> (int32 \<times> int32) option" where
  "Thread_new g = (if g = INT32_MAX then None else Some (g, g + 1))"

section \<open>Condition waits\<close>

datatype cv_status = no_timeout | timeout

text \<open>
  \<^verbatim>\<open>cv.wait_for(lock, d, pred)\<close> is \<^verbatim>\<open>while (!pred()) if (wait_until(lock, t) == timeout)
  return pred(); return true;\<close>. While the caller waits the lock is free and other threads
  change the state: \<open>wait_for_pred pred s wakes\<close> is called in state \<open>s\<close>, \<open>wakes\<close> lists
  the states found at each later return of the inner wait, the last of them at the
  deadline. The result is the value returned and the state in which the caller goes on,
  holding the lock.
\<close>

fun wait_for_pred :: "('s \<Rightarrow> bool) \<Rightarrow> 's \<Rightarrow> 's list \<Rightarrow> bool \<times> 's" where
  "wait_for_pred pred s [] = (pred s, s)"
| "wait_for_pred pred s (s' # wakes) =
     (if pred s then (True, s) else wait_for_pred pred s' wakes)"

section \<open>Result handles\<close>

text \<open>
  \<^verbatim>\<open>Any\<close> owns a pointer to a holder of some value: \<open>Any_null\<close> is the null pointer of a
  default-constructed or moved-from \<^verbatim>\<open>Any\<close>, \<open>Any_cstr\<close> holds a \<^verbatim>\<open>const char*\<close> literal,
  \<open>Any_val\<close> a value of the task's result type.
\<close>

datatype 'v Any = Any_null | Any_cstr string | Any_val 'v

record Semaphore =
  resLimit :: int32

definition Semaphore_new :: "int32 \<Rightarrow> Semaphore" where
  "Semaphore_new limit = \<lparr> resLimit = limit \<rparr>"

text \<open>
  \<^verbatim>\<open>Semaphore::wait\<close> blocks until \<^verbatim>\<open>resLimit_ > 0\<close> and then takes one resource.
  \<open>None\<close>: the caller stays blocked for as long as the semaphore stays as it is.
  \<^verbatim>\<open>Semaphore::post\<close> adds one resource; a handle receives one \<open>post\<close> for each run of
  its task, far from the range where the increment of the \<^verbatim>\<open>int\<close> would overflow.
\<close>

definition Semaphore_wait :: "Semaphore \<Rightarrow> Semaphore option" where
  "Semaphore_wait s = (if 0 <s resLimit s then Some (s\<lparr>resLimit := resLimit s - 1\<rparr>) else None)"

definition Semaphore_post :: "Semaphore \<Rightarrow> Semaphore" where
  "Semaphore_post s = s\<lparr>resLimit := resLimit s + 1\<rparr>"

record ('task, 'v) Result =
  any :: "'v Any"
  sem :: Semaphore
  task :: 'task
  isValid :: bool

text \<open>
  \<^verbatim>\<open>Result::Result(task, isValid)\<close>. The constructor also stores the address of the new
  handle in the task (\<^verbatim>\<open>task_->setResult(this)\<close>); \<^verbatim>\<open>Task::exec\<close> publishes through it.
\<close>

definition Result_new :: "'task \<Rightarrow> bool \<Rightarrow> ('task, 'v) Result" where
  "Result_new tk valid = \<lparr> any = Any_null, sem = Semaphore_new 0, task = tk, isValid = valid \<rparr>"

text \<open>
  \<^verbatim>\<open>Result::get\<close> returns the value and the handle as the call leaves it
  (\<^verbatim>\<open>std::move(any_)\<close> empties \<^verbatim>\<open>any_\<close>); \<open>None\<close> when the call blocks in \<^verbatim>\<open>sem_.wait()\<close>.
\<close>

definition Result_get :: "('task, 'v) Result \<Rightarrow> ('v Any \<times> ('task, 'v) Result) option" where
  "Result_get r =
     (if \<not> isValid r then Some (Any_cstr [], r)
      else case Semaphore_wait (sem r) of
             None \<Rightarrow> None
           | Some s' \<Rightarrow> Some (any r, r\<lparr>any := Any_null, sem := s'\<rparr>))"

definition Result_setVal :: "'v Any \<Rightarrow> ('task, 'v) Result \<Rightarrow> ('task, 'v) Result" where
  "Result_setVal a r = r\<lparr>any := a, sem := Semaphore_post (sem r)\<rparr>"

text \<open>
  \<^verbatim>\<open>Task::exec\<close> on a task whose \<^verbatim>\<open>result_\<close> points to the handle \<open>r\<close> (\<open>None\<close> for a null
  pointer); \<open>v\<close> is what the task's \<^verbatim>\<open>run()\<close> returns.
\<close>

definition Task_exec :: "'v Any \<Rightarrow> ('task, 'v) Result option \<Rightarrow> ('task, 'v) Result option" where
  "Task_exec v result = (case result of None \<Rightarrow> None | Some r \<Rightarrow> Some (Result_setVal v r))"

section \<open>Submission\<close>

text \<open>The predicate of the admission wait: \<^verbatim>\<open>taskQue_.size() < (size_t)taskQueMaxThreshHold_\<close>.\<close>

definition queue_not_full :: "'task ThreadPool \<Rightarrow> bool" where
  "queue_not_full p = (length (taskQue p) < to_size_t (taskQueMaxThreshHold p))"

text \<open>
  The statements of \<^verbatim>\<open>submitTask\<close> after a successful admission wait, from
  \<^verbatim>\<open>taskQue_.emplace\<close> to the end of the growth branch: the task goes to the back of the
  queue and, in Cached mode with more tasks than idle threads and fewer threads than
  the threshold, one thread is created, registered and started. The result is the pool
  and the ids of the threads started. The header-only pool of \<^verbatim>\<open>ThreadPool_C++11\<close> has
  the same statements.
\<close>

definition enqueue_and_grow :: "'task \<Rightarrow> 'task ThreadPool \<Rightarrow> ('task ThreadPool \<times> int32 list) option" where
  "enqueue_and_grow sp p1 =
     (let p2 = p1\<lparr>taskQue := taskQue p1 @ [sp], taskSize := taskSize p1 + 1\<rparr> in
      if poolMode p2 = MODE_CACHED
         \<and> idleThreadSize p2 <s taskSize p2
         \<and> curThreadSize p2 <s threadSizeThreshHold p2
      then (case Thread_new (generateId p2) of
              None \<Rightarrow> None
            | Some (threadId, g) \<Rightarrow>
                Some (p2\<lparr>generateId := g,
                         threads := insert threadId (threads p2),
                         curThreadSize := curThreadSize p2 + 1,
                         idleThreadSize := idleThreadSize p2 + 1\<rparr>, [threadId]))
      else Some (p2, []))"

text \<open>
  \<^verbatim>\<open>ThreadPool::submitTask\<close>, called in state \<open>p\<close>; \<open>wakes\<close> are the states the admission
  wait sees (see \<open>wait_for_pred\<close>). The result is the pool after the call, the handle
  returned, and the ids of the threads the call started. From the end of the wait to the
  return the caller holds the queue lock.
\<close>

definition submitTask ::
  "'task \<Rightarrow> 'task ThreadPool \<Rightarrow> 'task ThreadPool list \<Rightarrow>
     ('task ThreadPool \<times> ('task, 'v) Result \<times> int32 list) option" where
  "submitTask sp p wakes =
     (case wait_for_pred queue_not_full p wakes of
        (False, p1) \<Rightarrow> Some (p1, Result_new sp False, [])
      | (True, p1) \<Rightarrow>
          (case enqueue_and_grow sp p1 of
             None \<Rightarrow> None
           | Some (p', started) \<Rightarrow> Some (p', Result_new sp True, started)))"

text \<open>
  \<^verbatim>\<open>submitTask\<close> of the header-only pool returns a \<^verbatim>\<open>std::future\<close>: the pending future of
  the queued task, or, when the admission wait fails, the future of a task that has
  already run and returned the default value \<open>dflt\<close> of the result type.
\<close>

datatype 'r future = Future_pending | Future_ready 'r

definition submitTask_cxx11 ::
  "'task \<Rightarrow> 'r \<Rightarrow> 'task ThreadPool \<Rightarrow> 'task ThreadPool list \<Rightarrow>
     ('task ThreadPool \<times> 'r future \<times> int32 list) option" where
  "submitTask_cxx11 tk dflt p wakes =
     (case wait_for_pred queue_not_full p wakes of
        (False, p1) \<Rightarrow> Some (p1, Future_ready dflt, [])
      | (True, p1) \<Rightarrow>
          (case enqueue_and_grow tk p1 of
             None \<Rightarrow> None
           | Some (p', started) \<Rightarrow> Some (p', Future_pending, started)))"

section \<open>Start\<close>

text \<open>
  The two loops of \<^verbatim>\<open>ThreadPool::start\<close>, by the number of iterations left. The first
  creates a \<^verbatim>\<open>Thread\<close> and registers it under its id. The second starts
  \<^verbatim>\<open>threads_[i]\<close> for the loop index \<open>i\<close>, not for the ids created: where the registry
  has no key \<open>i\<close>, \<^verbatim>\<open>operator[]\<close> inserts a null pointer and the call through it has no
  result.
\<close>

fun start_create :: "nat \<Rightarrow> 'task ThreadPool \<Rightarrow> 'task ThreadPool option" where
  "start_create 0 p = Some p"
| "start_create (Suc k) p =
     (case Thread_new (generateId p) of
        None \<Rightarrow> None
      | Some (threadId, g) \<Rightarrow>
          start_create k (p\<lparr>generateId := g, threads := insert threadId (threads p)\<rparr>))"

fun start_launch :: "nat \<Rightarrow> int32 \<Rightarrow> 'task ThreadPool \<Rightarrow> ('task ThreadPool \<times> int32 list) option" where
  "start_launch 0 i p = Some (p, [])"
| "start_launch (Suc k) i p =
     (if i \<in> threads p
      then (case start_launch k (i + 1) (p\<lparr>idleThreadSize := idleThreadSize p + 1\<rparr>) of
              None \<Rightarrow> None
            | Some (p', started) \<Rightarrow> Some (p', i # started))
      else None)"

text \<open>
  \<^verbatim>\<open>ThreadPool::start(initThreadSize)\<close>: the pool after the call and the ids of the threads
  started. Both loops run \<open>initThreadSize\<close> times, not at all when it is not positive.
\<close>

definition start :: "int32 \<Rightarrow> 'task ThreadPool \<Rightarrow> ('task ThreadPool \<times> int32 list) option" where
  "start n p =
     (let p1 = p\<lparr>isPoolRunning := True, initThreadSize := n, curThreadSize := n\<rparr>;
          k = nat (sint n)
      in case start_create k p1 of
           None \<Rightarrow> None
         | Some p2 \<Rightarrow> start_launch k 0 p2)"

section \<open>The worker's thread function\<close>

text \<open>
  Where a worker is in \<^verbatim>\<open>ThreadPool::threadFunc\<close>: started but not yet in the function,
  about to take the queue lock at the top of the outer loop, inside the timed or the
  untimed wait on \<^verbatim>\<open>notEmpty_\<close> (the lock released), running a task it took (the lock
  released), or returned.
\<close>

datatype 'task wloc = Spawned | Ready | WaitTimed | WaitUntimed | Executing 'task | Exited

text \<open>
  \<^verbatim>\<open>duration_cast<seconds>(now - lastTime).count()\<close> for a clock with \<open>tps\<close> ticks per
  second: integer division that truncates towards zero.
\<close>

definition dur_count :: "int \<Rightarrow> int \<Rightarrow> int \<Rightarrow> int" where
  "dur_count tps now lastTime = (now - lastTime) sdiv tps"

text \<open>
  The worker holds the lock and tests \<^verbatim>\<open>taskQue_.size() == 0\<close>: with an empty queue it
  leaves when the pool is not running and otherwise enters the wait of the pool's mode;
  with a task in the queue it takes the head. The result is the pool when the worker
  releases the lock, and where the worker is then.
\<close>

definition threadFunc_loop :: "int32 \<Rightarrow> 'task ThreadPool \<Rightarrow> 'task ThreadPool \<times> 'task wloc" where
  "threadFunc_loop threadid p =
     (case taskQue p of
        [] \<Rightarrow>
          if \<not> isPoolRunning p then (p\<lparr>threads := threads p - {threadid}\<rparr>, Exited)
          else if poolMode p = MODE_CACHED then (p, WaitTimed)
          else (p, WaitUntimed)
      | tk # rest \<Rightarrow>
          (p\<lparr>idleThreadSize := idleThreadSize p - 1,
             taskQue := rest,
             taskSize := taskSize p - 1\<rparr>, Executing tk))"

text \<open>
  The timed wait \<^verbatim>\<open>notEmpty_.wait_for(lock, 1s)\<close> returns \<open>st\<close> at clock value \<open>now\<close>, the
  worker holding the lock again in state \<open>p\<close>.
\<close>

definition threadFunc_timed_wake ::
  "int \<Rightarrow> int32 \<Rightarrow> int \<Rightarrow> cv_status \<Rightarrow> int \<Rightarrow> 'task ThreadPool \<Rightarrow> 'task ThreadPool \<times> 'task wloc" where
  "threadFunc_timed_wake tps threadid lastTime st now p =
     (if st = timeout
         \<and> THREAD_MAX_IDLE_TIME \<le> dur_count tps now lastTime
         \<and> initThreadSize p <s curThreadSize p
      then (p\<lparr>threads := threads p - {threadid},
               curThreadSize := curThreadSize p - 1,
               idleThreadSize := idleThreadSize p - 1\<rparr>, Exited)
      else threadFunc_loop threadid p)"

text \<open>The untimed wait \<^verbatim>\<open>notEmpty_.wait(lock)\<close> returns; the loop tests the queue again.\<close>

definition threadFunc_untimed_wake :: "int32 \<Rightarrow> 'task ThreadPool \<Rightarrow> 'task ThreadPool \<times> 'task wloc" where
  "threadFunc_untimed_wake threadid p = threadFunc_loop threadid p"

text \<open>After \<^verbatim>\<open>task->exec()\<close>: \<^verbatim>\<open>idleThreadSize_++\<close>, without the lock.\<close>

definition threadFunc_done :: "'task ThreadPool \<Rightarrow> 'task ThreadPool" where
  "threadFunc_done p = p\<lparr>idleThreadSize := idleThreadSize p + 1\<rparr>"

section \<open>Destruction\<close>

text \<open>
  \<^verbatim>\<open>ThreadPool::~ThreadPool\<close>: the first statement, and the predicate of
  \<^verbatim>\<open>exitCond_.wait\<close> under which the destructor returns.
\<close>

definition dtor_stop :: "'task ThreadPool \<Rightarrow> 'task ThreadPool" where
  "dtor_stop p = p\<lparr>isPoolRunning := False\<rparr>"

definition dtor_may_return :: "'task ThreadPool \<Rightarrow> bool" where
  "dtor_may_return p = (threads p = {})"


section \<open>The pool together with its worker threads\<close>

text \<open>
  The running program: the pool object, the worker threads by thread id, and three
  logs (tasks admitted to the queue, tasks taken from it, tasks whose \<^verbatim>\<open>exec()\<close> has
  returned, each in the order of the events). \<open>notified\<close> marks a waiting worker that a
  \<^verbatim>\<open>notify_all\<close> on \<^verbatim>\<open>notEmpty_\<close> has released. The destructor is before its first
  statement, past it, inside \<^verbatim>\<open>exitCond_.wait\<close> after its \<^verbatim>\<open>notify_all\<close>, or has returned.
\<close>

record 'task worker =
  loc :: "'task wloc"
  lastTime :: int
  notified :: bool

datatype dtor_state = Alive | Stopping | Draining | Destroyed

record 'task sys =
  pool :: "'task ThreadPool"
  workers :: "int32 \<rightharpoonup> 'task worker"
  accepted :: "'task list"
  taken :: "'task list"
  executed :: "'task list"
  dtor :: dtor_state

text \<open>\<^verbatim>\<open>Thread::start\<close> for each id of the list: a new detached thread.\<close>

definition launch :: "int32 list \<Rightarrow> (int32 \<rightharpoonup> 'task worker) \<Rightarrow> (int32 \<rightharpoonup> 'task worker)" where
  "launch started ws =
     (\<lambda>tid. if tid \<in> set started
            then Some \<lparr> loc = Spawned, lastTime = 0, notified = False \<rparr>
            else ws tid)"

text \<open>\<^verbatim>\<open>notEmpty_.notify_all()\<close>: every worker inside a wait is released.\<close>

definition notify_all :: "(int32 \<rightharpoonup> 'task worker) \<Rightarrow> (int32 \<rightharpoonup> 'task worker)" where
  "notify_all ws =
     (\<lambda>tid. case ws tid of
              None \<Rightarrow> None
            | Some w \<Rightarrow>
                Some (if loc w = WaitTimed \<or> loc w = WaitUntimed then w\<lparr>notified := True\<rparr> else w))"

text \<open>A worker leaves a section under the lock with the pool \<open>p\<close>, at location \<open>l\<close>.\<close>

definition settle :: "'task sys \<Rightarrow> int32 \<Rightarrow> 'task worker \<Rightarrow> 'task ThreadPool \<times> 'task wloc \<Rightarrow> 'task sys" where
  "settle s tid w r =
     (case r of (p, l) \<Rightarrow>
        s\<lparr>pool := p,
          workers := (workers s)(tid \<mapsto> w\<lparr>loc := l, notified := False\<rparr>),
          taken := (case l of Executing tk \<Rightarrow> taken s @ [tk] | _ \<Rightarrow> taken s)\<rparr>)"

text \<open>
  The steps of the program. Each is one section of the source that runs under the queue
  lock, or one access to an atomic outside it, so that the steps of different threads
  interleave:
  \<^item> \<open>Submit\<close>: a \<^verbatim>\<open>submitTask\<close> call, from the return of its admission wait on;
  \<^item> \<open>Enter\<close>: a started thread enters \<^verbatim>\<open>threadFunc\<close> and reads the clock;
  \<^item> \<open>Acquire\<close>: a worker takes the lock at the top of the outer loop;
  \<^item> \<open>Wake\<close>: a worker's wait on \<^verbatim>\<open>notEmpty_\<close> returns (released, timed out, or spuriously);
  \<^item> \<open>Finish\<close>: \<^verbatim>\<open>task->exec()\<close> returns, then \<^verbatim>\<open>idleThreadSize_++\<close> and the clock is read;
  \<^item> \<open>Shutdown\<close>, \<open>Notify\<close>, \<open>Destroy\<close>: the destructor clears \<^verbatim>\<open>isPoolRunning_\<close>, takes the
    lock and notifies, and returns from \<^verbatim>\<open>exitCond_.wait\<close>.
  \<open>None\<close>: the step cannot be taken in this state, or has no defined result.
\<close>

datatype 'task event =
    Submit 'task
  | Enter int32 int
  | Acquire int32
  | Wake int32 cv_status int
  | Finish int32 int
  | Shutdown
  | Notify
  | Destroy

fun fire :: "int \<Rightarrow> 'task event \<Rightarrow> 'task sys \<Rightarrow> 'task sys option" where
  "fire tps (Submit tk) s =
     (if dtor s = Destroyed then None
      else case (submitTask tk (pool s) [] :: ('task ThreadPool \<times> ('task, unit) Result \<times> int32 list) option) of
             None \<Rightarrow> None
           | Some (p, r, started) \<Rightarrow>
               if isValid r
               then Some (s\<lparr>pool := p,
                            workers := launch started (notify_all (workers s)),
                            accepted := accepted s @ [tk]\<rparr>)
               else Some (s\<lparr>pool := p\<rparr>))"
| "fire tps (Enter tid now) s =
     (if dtor s = Destroyed then None
      else case workers s tid of
             None \<Rightarrow> None
           | Some w \<Rightarrow>
               if loc w = Spawned
               then Some (s\<lparr>workers := (workers s)(tid \<mapsto> w\<lparr>loc := Ready, lastTime := now\<rparr>)\<rparr>)
               else None)"
| "fire tps (Acquire tid) s =
     (if dtor s = Destroyed then None
      else case workers s tid of
             None \<Rightarrow> None
           | Some w \<Rightarrow>
               if loc w = Ready then Some (settle s tid w (threadFunc_loop tid (pool s)))
               else None)"
| "fire tps (Wake tid st now) s =
     (if dtor s = Destroyed then None
      else case workers s tid of
             None \<Rightarrow> None
           | Some w \<Rightarrow>
               if loc w = WaitTimed
               then Some (settle s tid w (threadFunc_timed_wake tps tid (lastTime w) st now (pool s)))
               else if loc w = WaitUntimed
               then Some (settle s tid w (threadFunc_untimed_wake tid (pool s)))
               else None)"
| "fire tps (Finish tid now) s =
     (if dtor s = Destroyed then None
      else case workers s tid of
             None \<Rightarrow> None
           | Some w \<Rightarrow>
               (case loc w of
                  Executing tk \<Rightarrow>
                    Some (s\<lparr>pool := threadFunc_done (pool s),
                            workers := (workers s)(tid \<mapsto> w\<lparr>loc := Ready, lastTime := now\<rparr>),
                            executed := executed s @ [tk]\<rparr>)
                | _ \<Rightarrow> None))"
| "fire tps Shutdown s =
     (if dtor s = Alive then Some (s\<lparr>pool := dtor_stop (pool s), dtor := Stopping\<rparr>) else None)"
| "fire tps Notify s =
     (if dtor s = Stopping then Some (s\<lparr>workers := notify_all (workers s), dtor := Draining\<rparr>)
      else None)"
| "fire tps Destroy s =
     (if dtor s = Draining \<and> dtor_may_return (pool s) then Some (s\<lparr>dtor := Destroyed\<rparr>)
      else None)"

fun run :: "int \<Rightarrow> 'task event list \<Rightarrow> 'task sys \<Rightarrow> 'task sys option" where
  "run tps [] s = Some s"
| "run tps (e # es) s = (case fire tps e s of None \<Rightarrow> None | Some s' \<Rightarrow> run tps es s')"

text \<open>
  The life of a pool up to the end of \<^verbatim>\<open>start\<close>: construction, any calls of the three
  setters, \<^verbatim>\<open>start(n)\<close>.
\<close>

datatype config =
    SetMode PoolMode
  | SetTaskQueMaxThreshHold int32
  | SetThreadSizeThreshHold int32

fun configure :: "config \<Rightarrow> 'task ThreadPool \<Rightarrow> 'task ThreadPool" where
  "configure (SetMode m) p = setMode m p"
| "configure (SetTaskQueMaxThreshHold n) p = setTaskQueMaxThreshHold n p"
| "configure (SetThreadSizeThreshHold n) p = setThreadSizeThreshHold n p"

definition boot :: "config list \<Rightarrow> int32 \<Rightarrow> 'task sys option" where
  "boot cfg n =
     (case start n (fold configure cfg ThreadPool_new) of
        None \<Rightarrow> None
      | Some (p, started) \<Rightarrow>
          Some \<lparr> pool = p, workers = launch started Map.empty,
                 accepted = [], taken = [], executed = [], dtor = Alive \<rparr>)"


text \<open>
  A run of the program: the pool is constructed, configured and started, and then the
  steps \<open>evs\<close> are taken in this order. No task is submitted before \<^verbatim>\<open>start\<close> returns.
\<close>

definition program :: "config list \<Rightarrow> int32 \<Rightarrow> int \<Rightarrow> 'task event list \<Rightarrow> 'task sys option" where
  "program cfg n tps evs = (case boot cfg n of None \<Rightarrow> None | Some s0 \<Rightarrow> run tps evs s0)"

section \<open>Invariants\<close>

text \<open>The queue is no longer than the depth limit as \<^verbatim>\<open>submitTask\<close> reads it.\<close>

definition queue_bounded :: "'task sys \<Rightarrow> bool" where
  "queue_bounded s = (length (taskQue (pool s)) \<le> to_size_t (taskQueMaxThreshHold (pool s)))"

text \<open>The tasks taken so far, followed by the queue, are the tasks admitted so far.\<close>

definition fifo :: "'task sys \<Rightarrow> bool" where
  "fifo s = (taken s @ taskQue (pool s) = accepted s)"

text \<open>
  \<open>curThreadSize\<close> is at most the threshold, and at most \<open>initThreadSize\<close> plus the number
  of tasks admitted so far.
\<close>

definition growth_bounded :: "'task sys \<Rightarrow> bool" where
  "growth_bounded s =
     (sint (curThreadSize (pool s)) \<le> sint (threadSizeThreshHold (pool s))
      \<and> sint (curThreadSize (pool s))
           \<le> sint (initThreadSize (pool s)) + int (length (accepted s)))"

text \<open>
  What a section of \<^verbatim>\<open>threadFunc\<close> under the lock may do to the pool, whichever of the
  three it is (loop top, return of the timed wait, return of the untimed wait).
\<close>

definition locked_result :: "int32 \<Rightarrow> 'task ThreadPool \<Rightarrow> 'task ThreadPool \<times> 'task wloc \<Rightarrow> bool" where
  "locked_result tid p r =
     (case r of (p', l) \<Rightarrow>
        taskQueMaxThreshHold p' = taskQueMaxThreshHold p
        \<and> threadSizeThreshHold p' = threadSizeThreshHold p
        \<and> initThreadSize p' = initThreadSize p
        \<and> poolMode p' = poolMode p
        \<and> isPoolRunning p' = isPoolRunning p
        \<and> generateId p' = generateId p
        \<and> threads p' = (if l = Exited then threads p - {tid} else threads p)
        \<and> taskQue p = (case l of Executing tk \<Rightarrow> tk # taskQue p' | _ \<Rightarrow> taskQue p')
        \<and> l \<noteq> Spawned \<and> l \<noteq> Ready
        \<and> sint (curThreadSize p') \<le> sint (curThreadSize p)
        \<and> (l = WaitTimed \<or> l = WaitUntimed \<longrightarrow> isPoolRunning p \<and> taskQue p = []))"

text \<open>The configuration: the fields no step of a started pool writes.\<close>

definition config_of :: "'task sys \<Rightarrow> int32 \<times> int32 \<times> int32 \<times> PoolMode" where
  "config_of s =
     (initThreadSize (pool s), threadSizeThreshHold (pool s),
      taskQueMaxThreshHold (pool s), poolMode (pool s))"

text \<open>
  The state of shutdown. Ids in the registry are below the id counter. A worker thread
  that has not returned is in the registry. A task taken from the queue has run to
  completion or is being run by a worker. Once the destructor has begun,
  \<open>isPoolRunning\<close> is false; while it waits for the workers, every worker inside a wait
  on \<^verbatim>\<open>notEmpty_\<close> has been released; when it has returned, the registry is empty.
\<close>

definition shutdown_inv :: "'task sys \<Rightarrow> bool" where
  "shutdown_inv s =
     ((\<forall>t \<in> threads (pool s). sint t < sint (generateId (pool s)))
      \<and> (\<forall>tid w. workers s tid = Some w \<and> loc w \<noteq> Exited \<longrightarrow> tid \<in> threads (pool s))
      \<and> (\<forall>tk \<in> set (taken s).
            tk \<in> set (executed s) \<or> (\<exists>tid w. workers s tid = Some w \<and> loc w = Executing tk))
      \<and> (dtor s \<noteq> Alive \<longrightarrow> \<not> isPoolRunning (pool s))
      \<and> (dtor s = Draining \<longrightarrow>
            (\<forall>tid w. workers s tid = Some w \<and> (loc w = WaitTimed \<or> loc w = WaitUntimed)
                \<longrightarrow> notified w))
      \<and> (dtor s = Destroyed \<longrightarrow> threads (pool s) = {}))"

text \<open>The worker with a given id, for reading the result of a run.\<close>

definition worker_of :: "int32 \<Rightarrow> 'task sys \<Rightarrow> 'task worker option" where
  "worker_of tid s = workers s tid"

text \<open>
  A Fixed-mode pool before its destructor begins: the pool is running, no worker has
  returned or is in the timed wait, and \<open>curThreadSize\<close> is \<open>initThreadSize\<close>.
\<close>

definition fixed_stable :: "'task sys \<Rightarrow> bool" where
  "fixed_stable s =
     (poolMode (pool s) = MODE_FIXED \<and> dtor s = Alive \<longrightarrow>
        isPoolRunning (pool s)
        \<and> (\<forall>tid w. workers s tid = Some w \<longrightarrow> loc w \<noteq> Exited \<and> loc w \<noteq> WaitTimed)
        \<and> curThreadSize (pool s) = initThreadSize (pool s))"

section \<open>Result handles and the destructor's wait in a run\<close>

text \<open>
  The running program with the objects a run shares between callers and workers.
  \<open>handles\<close> holds the \<^verbatim>\<open>Result\<close> objects in the order of the \<^verbatim>\<open>submitTask\<close> calls that
  made them (each is kept by its caller); \<open>result_ptr\<close> is the member \<^verbatim>\<open>Task::result_\<close> of
  each task object, as the index of the handle it points to, set by the constructor of
  \<^verbatim>\<open>Result\<close> in every \<^verbatim>\<open>submitTask\<close> call, admitted or not. A value of type \<open>'task\<close> stands
  for one task object: submitting the same value again is submitting the same object
  again. \<open>exit_signal\<close> says that \<^verbatim>\<open>exitCond_\<close> has been notified while the destructor was
  inside \<^verbatim>\<open>exitCond_.wait\<close> and the destructor has not evaluated its predicate since.
\<close>

record ('task, 'v) world =
  base :: "'task sys"
  handles :: "('task, 'v) Result list"
  result_ptr :: "'task \<rightharpoonup> nat"
  exit_signal :: bool

text \<open>The tasks of all \<^verbatim>\<open>submitTask\<close> calls so far, in the order of the calls.\<close>

definition submits :: "('task, 'v) world \<Rightarrow> 'task list" where
  "submits x = map task (handles x)"

text \<open>The handle \<^verbatim>\<open>result_\<close> of a task points to; \<open>None\<close> for the null pointer.\<close>

definition handle_of :: "'task \<Rightarrow> ('task, 'v) world \<Rightarrow> ('task, 'v) Result option" where
  "handle_of tk x =
     (case result_ptr x tk of
        None \<Rightarrow> None
      | Some k \<Rightarrow> if k < length (handles x) then Some (handles x ! k) else None)"

text \<open>
  \<^verbatim>\<open>task->exec()\<close> in a run: \<open>Task_exec\<close> on the handle the task points to, with the value
  \<open>rn tk\<close> that the task's \<^verbatim>\<open>run()\<close> returns, written back to that handle.
\<close>

definition publish :: "('task \<Rightarrow> 'v Any) \<Rightarrow> 'task \<Rightarrow> ('task, 'v) world \<Rightarrow> ('task, 'v) world" where
  "publish rn tk x =
     (case result_ptr x tk of
        None \<Rightarrow> x
      | Some k \<Rightarrow>
          (case Task_exec (rn tk) (handle_of tk x) of
             None \<Rightarrow> x
           | Some r \<Rightarrow> x\<lparr>handles := (handles x)[k := r]\<rparr>))"

text \<open>
  The branch at the top of the inner loop of \<^verbatim>\<open>threadFunc\<close> in which the worker erases
  itself, calls \<^verbatim>\<open>exitCond_.notify_all()\<close> and returns: the queue is empty and the pool is
  not running.
\<close>

definition stop_exit :: "'task ThreadPool \<Rightarrow> bool" where
  "stop_exit p = (taskQue p = [] \<and> \<not> isPoolRunning p)"

text \<open>
  The branch after a timed wait in which the worker erases itself, decrements the two
  counts and returns. This branch does not call \<^verbatim>\<open>exitCond_.notify_all()\<close>.
\<close>

definition reclaim_exit :: "int \<Rightarrow> int \<Rightarrow> cv_status \<Rightarrow> int \<Rightarrow> 'task ThreadPool \<Rightarrow> bool" where
  "reclaim_exit tps lastT st now p =
     (st = timeout
      \<and> THREAD_MAX_IDLE_TIME \<le> dur_count tps now lastT
      \<and> initThreadSize p <s curThreadSize p)"

text \<open>Whether a worker's step in state \<open>s\<close> calls \<^verbatim>\<open>exitCond_.notify_all()\<close>.\<close>

fun notifies_exit :: "int \<Rightarrow> 'task event \<Rightarrow> 'task sys \<Rightarrow> bool" where
  "notifies_exit tps (Acquire tid) s =
     (case workers s tid of
        None \<Rightarrow> False
      | Some w \<Rightarrow> loc w = Ready \<and> stop_exit (pool s))"
| "notifies_exit tps (Wake tid st now) s =
     (case workers s tid of
        None \<Rightarrow> False
      | Some w \<Rightarrow>
          if loc w = WaitTimed
          then (if reclaim_exit tps (lastTime w) st now (pool s) then False else stop_exit (pool s))
          else loc w = WaitUntimed \<and> stop_exit (pool s))"
| "notifies_exit tps e s = False"

text \<open>
  The steps of a run with handles: a step of the program, or a return of the destructor's
  wait on \<^verbatim>\<open>exitCond_\<close> that no notification caused, which the C++ standard permits.
\<close>

datatype 'task xevent = Step "'task event" | Spurious

text \<open>
  The destructor evaluates the predicate of \<^verbatim>\<open>exitCond_.wait\<close> holding the lock: it returns
  when the registry is empty, and otherwise waits, with no notification pending.
\<close>

definition dtor_evaluate :: "int \<Rightarrow> ('task, 'v) world \<Rightarrow> ('task, 'v) world" where
  "dtor_evaluate tps x =
     (case fire tps Destroy (base x) of
        None \<Rightarrow> x\<lparr>exit_signal := False\<rparr>
      | Some s \<Rightarrow> x\<lparr>base := s, exit_signal := False\<rparr>)"

text \<open>
  A step of the program on the pool and its workers is the step \<open>fire\<close>; in addition
  \<^item> \<open>Submit\<close> appends the handle the call returns and points the task at it;
  \<^item> \<open>Finish\<close> publishes: \<^verbatim>\<open>exec()\<close> calls \<^verbatim>\<open>setVal\<close> on the handle of the worker's task;
  \<^item> \<open>Acquire\<close> and \<open>Wake\<close> raise \<open>exit_signal\<close> when the worker leaves through the branch
    that notifies \<^verbatim>\<open>exitCond_\<close> while the destructor waits;
  \<^item> \<open>Notify\<close> is the destructor taking the lock, notifying \<^verbatim>\<open>notEmpty_\<close> and entering
    \<^verbatim>\<open>exitCond_.wait(lock, pred)\<close>, which evaluates the predicate at once;
  \<^item> \<open>Destroy\<close> is the destructor waking after a notification of \<^verbatim>\<open>exitCond_\<close> and
    evaluating the predicate; without a pending notification the step cannot be taken.
\<close>

fun fire_world ::
  "int \<Rightarrow> ('task \<Rightarrow> 'v Any) \<Rightarrow> 'task xevent \<Rightarrow> ('task, 'v) world \<Rightarrow> ('task, 'v) world option" where
  "fire_world tps rn (Step (Submit tk)) x =
     (case submitTask tk (pool (base x)) [] of
        None \<Rightarrow> None
      | Some (p, r, started) \<Rightarrow>
          (case fire tps (Submit tk) (base x) of
             None \<Rightarrow> None
           | Some s \<Rightarrow>
               Some (x\<lparr>base := s,
                       handles := handles x @ [r],
                       result_ptr := (result_ptr x)(tk \<mapsto> length (handles x))\<rparr>)))"
| "fire_world tps rn (Step (Finish tid now)) x =
     (case fire tps (Finish tid now) (base x) of
        None \<Rightarrow> None
      | Some s \<Rightarrow>
          (case workers (base x) tid of
             None \<Rightarrow> None
           | Some w \<Rightarrow>
               (case loc w of
                  Executing tk \<Rightarrow> Some ((publish rn tk x)\<lparr>base := s\<rparr>)
                | _ \<Rightarrow> None)))"
| "fire_world tps rn (Step Notify) x =
     (case fire tps Notify (base x) of
        None \<Rightarrow> None
      | Some s \<Rightarrow> Some (dtor_evaluate tps (x\<lparr>base := s\<rparr>)))"
| "fire_world tps rn (Step Destroy) x =
     (if dtor (base x) = Draining \<and> exit_signal x then Some (dtor_evaluate tps x) else None)"
| "fire_world tps rn (Step e) x =
     (case fire tps e (base x) of
        None \<Rightarrow> None
      | Some s \<Rightarrow>
          Some (x\<lparr>base := s,
                  exit_signal :=
                    (exit_signal x \<or> (dtor (base x) = Draining \<and> notifies_exit tps e (base x)))\<rparr>))"
| "fire_world tps rn Spurious x =
     (if dtor (base x) = Draining then Some (dtor_evaluate tps x) else None)"

fun run_world ::
  "int \<Rightarrow> ('task \<Rightarrow> 'v Any) \<Rightarrow> 'task xevent list \<Rightarrow> ('task, 'v) world \<Rightarrow> ('task, 'v) world option" where
  "run_world tps rn [] x = Some x"
| "run_world tps rn (e # es) x =
     (case fire_world tps rn e x of None \<Rightarrow> None | Some x' \<Rightarrow> run_world tps rn es x')"

text \<open>
  A run with handles: construction, configuration, \<^verbatim>\<open>start(n)\<close>, then the steps \<open>xevs\<close>.
\<close>

definition program_world ::
  "config list \<Rightarrow> int32 \<Rightarrow> int \<Rightarrow> ('task \<Rightarrow> 'v Any) \<Rightarrow> 'task xevent list \<Rightarrow> ('task, 'v) world option" where
  "program_world cfg n tps rn xevs =
     (case boot cfg n of
        None \<Rightarrow> None
      | Some s0 \<Rightarrow>
          run_world tps rn xevs
            \<lparr> base = s0, handles = [], result_ptr = Map.empty, exit_signal = False \<rparr>)"

text \<open>The workers that are running a given task.\<close>

definition executing :: "'task sys \<Rightarrow> 'task \<Rightarrow> int32 set" where
  "executing s tk = {tid. \<exists>w. workers s tid = Some w \<and> loc w = Executing tk}"

text \<open>
  Every task has been taken from the queue as often as its \<^verbatim>\<open>exec()\<close> has returned plus
  the number of workers running it.
\<close>

definition dispatch_counted :: "'task sys \<Rightarrow> bool" where
  "dispatch_counted s =
     (\<forall>tk. count_list (taken s) tk = count_list (executed s) tk + card (executing s tk))"

text \<open>
  The state of the handles. A task's pointer is the index of a handle made for it; every
  submitted task has one; admitted tasks have been submitted. When no task object has
  been submitted twice, the handle of a task is as its \<^verbatim>\<open>submitTask\<close> call made it (valid
  exactly if the task was admitted) until \<^verbatim>\<open>exec()\<close> of the task has returned, and from then
  on it is that handle after one \<^verbatim>\<open>setVal\<close> of the task's value.
\<close>

definition handles_inv :: "('task \<Rightarrow> 'v Any) \<Rightarrow> ('task, 'v) world \<Rightarrow> bool" where
  "handles_inv rn x =
     ((\<forall>tk k. result_ptr x tk = Some k \<longrightarrow>
          k < length (handles x) \<and> task (handles x ! k) = tk)
      \<and> (\<forall>tk \<in> set (submits x). result_ptr x tk \<noteq> None)
      \<and> set (accepted (base x)) \<subseteq> set (submits x)
      \<and> (distinct (submits x) \<longrightarrow>
            distinct (accepted (base x))
            \<and> (\<forall>tk k. result_ptr x tk = Some k \<longrightarrow>
                  handles x ! k =
                    (if tk \<in> set (executed (base x))
                     then Result_setVal (rn tk) (Result_new tk (tk \<in> set (accepted (base x))))
                     else Result_new tk (tk \<in> set (accepted (base x)))))))"

section \<open>Example states\<close>

text \<open>A pool whose queue holds one task and whose depth limit is one.\<close>

definition full_pool :: "nat ThreadPool" where
  "full_pool = ThreadPool_new\<lparr>taskQue := [5], taskSize := 1, taskQueMaxThreshHold := 1\<rparr>"

text \<open>A Fixed-mode pool after \<^verbatim>\<open>start(0)\<close>.\<close>

definition running_pool :: "nat ThreadPool" where
  "running_pool = ThreadPool_new\<lparr>isPoolRunning := True\<rparr>"

text \<open>
  A running Cached-mode pool started with one thread that has grown to two; both workers
  are idle and the queue is empty.
\<close>

definition cached_pool :: "nat ThreadPool" where
  "cached_pool =
     ThreadPool_new\<lparr>threads := {0, 1}, initThreadSize := 1, curThreadSize := 2,
                    idleThreadSize := 2, poolMode := MODE_CACHED, isPoolRunning := True,
                    generateId := 2\<rparr>"

text \<open>A running Cached-mode pool whose only worker is busy; nothing is queued.\<close>

definition busy_pool :: "nat ThreadPool" where
  "busy_pool =
     ThreadPool_new\<lparr>threads := {0}, initThreadSize := 1, curThreadSize := 1,
                    poolMode := MODE_CACHED, isPoolRunning := True, generateId := 1\<rparr>"

section \<open>Arithmetic of the integer fields\<close>

lemma to_size_t_nonneg: "0 \<le> sint x \<Longrightarrow> to_size_t x = nat (sint x)"
  using sint_lt [of x] by (simp add: to_size_t_def)

lemma to_size_t_neg: "sint x < 0 \<Longrightarrow> to_size_t x = nat (18446744073709551616 + sint x)"
proof -
  assume a: "sint x < 0"
  have b: "- 2147483648 \<le> sint x"
    using sint_ge [of x] by simp
  have "sint x mod 18446744073709551616
          = (sint x + 18446744073709551616) mod 18446744073709551616"
    by simp
  also have "\<dots> = sint x + 18446744073709551616"
    using a b by (intro mod_pos_pos_trivial) auto
  finally show ?thesis
    by (simp add: to_size_t_def add.commute)
qed

lemma sint_succ: "sint (x :: int32) < 2147483647 \<Longrightarrow> sint (x + 1) = sint x + 1"
  using sint_ge [of x] by (simp add: sint_word_ariths signed_take_bit_int_eq_self)

lemma sint_pred: "- 2147483648 < sint (x :: int32) \<Longrightarrow> sint (x - 1) = sint x - 1"
  using sint_lt [of x] by (simp add: sint_word_ariths signed_take_bit_int_eq_self)

lemma div_ge_iff:
  fixes d tps c :: int
  assumes "0 < tps"
  shows "(c \<le> d div tps) = (c * tps \<le> d)"
proof
  assume "c \<le> d div tps"
  then have "c * tps \<le> (d div tps) * tps"
    using assms by (simp add: mult_right_mono)
  also have "\<dots> \<le> d"
    using assms by (metis add.commute add_increasing div_mult_mod_eq order_refl pos_mod_sign)
  finally show "c * tps \<le> d" .
next
  assume "c * tps \<le> d"
  then have "(c * tps) div tps \<le> d div tps"
    using assms by (rule zdiv_mono1)
  then show "c \<le> d div tps"
    using assms by simp
qed

lemma sdiv_ge_iff:
  fixes d tps :: int
  assumes "0 < tps"
  shows "(60 \<le> d sdiv tps) = (60 * tps \<le> d)"
proof (cases "0 \<le> d")
  case True
  then have "d sdiv tps = d div tps"
    using assms by (simp add: signed_divide_int_def sgn_if)
  then show ?thesis
    using div_ge_iff [OF assms, of 60 d] by simp
next
  case False
  then have "d sdiv tps \<le> 0"
    using assms by (simp add: signed_divide_int_def sgn_if pos_imp_zdiv_nonneg_iff)
  moreover have "0 < 60 * tps"
    using assms by simp
  ultimately show ?thesis
    using False by linarith
qed

lemma idle_time_reached:
  "0 < tps \<Longrightarrow> (THREAD_MAX_IDLE_TIME \<le> dur_count tps now lastT) = (60 * tps \<le> now - lastT)"
  using sdiv_ge_iff [of tps "now - lastT"] by (simp add: THREAD_MAX_IDLE_TIME_def dur_count_def)

section \<open>Facts about submission\<close>

lemma wait_for_pred_all_false:
  "\<forall>q \<in> set (s # wakes). \<not> pred q \<Longrightarrow> wait_for_pred pred s wakes = (False, last (s # wakes))"
  by (induction wakes arbitrary: s) auto

lemma wait_for_pred_sound:
  "wait_for_pred pred s wakes = (b, s') \<Longrightarrow> s' \<in> set (s # wakes) \<and> b = pred s'"
  by (induction wakes arbitrary: s) (auto split: if_splits)

lemma enqueue_and_grow_rule:
  assumes "enqueue_and_grow sp q = Some (q', started)"
  shows "started = (if poolMode q = MODE_CACHED \<and> idleThreadSize q <s taskSize q'
                       \<and> curThreadSize q <s threadSizeThreshHold q
                    then [generateId q] else [])
         \<and> length started \<le> 1
         \<and> (poolMode q = MODE_FIXED \<longrightarrow> started = [])
         \<and> taskQue q' = taskQue q @ [sp]
         \<and> taskSize q' = taskSize q + 1
         \<and> threads q' = threads q \<union> set started
         \<and> curThreadSize q' = curThreadSize q + of_nat (length started)
         \<and> idleThreadSize q' = idleThreadSize q + of_nat (length started)
         \<and> sint (curThreadSize q') = sint (curThreadSize q) + int (length started)"
proof -
  have w: "curThreadSize q <s threadSizeThreshHold q \<Longrightarrow>
             sint (curThreadSize q + 1) = sint (curThreadSize q) + 1"
    using sint_lt [of "threadSizeThreshHold q"] by (intro sint_succ) (simp add: word_sless_alt)
  show ?thesis
    using assms w
    by (auto simp add: enqueue_and_grow_def Let_def Thread_new_def split: if_splits)
qed

lemma submitTask_now:
  "submitTask tk p [] =
     (if queue_not_full p
      then (case enqueue_and_grow tk p of
              None \<Rightarrow> None
            | Some (p', started) \<Rightarrow> Some (p', Result_new tk True, started))
      else Some (p, Result_new tk False, []))"
  by (simp add: submitTask_def)

lemma fire_Submit:
  "fire tps (Submit tk) s =
     (if dtor s = Destroyed then None
      else if queue_not_full (pool s)
      then (case enqueue_and_grow tk (pool s) of
              None \<Rightarrow> None
            | Some (p', started) \<Rightarrow>
                Some (s\<lparr>pool := p',
                        workers := launch started (notify_all (workers s)),
                        accepted := accepted s @ [tk]\<rparr>))
      else Some s)"
  by (simp add: submitTask_now Result_new_def split: option.splits)

section \<open>Facts about the thread function\<close>

lemma threadFunc_loop_frame:
  assumes "threadFunc_loop tid p = (p', l)"
  shows "taskQueMaxThreshHold p' = taskQueMaxThreshHold p"
    and "threadSizeThreshHold p' = threadSizeThreshHold p"
    and "initThreadSize p' = initThreadSize p"
    and "curThreadSize p' = curThreadSize p"
    and "poolMode p' = poolMode p"
    and "isPoolRunning p' = isPoolRunning p"
    and "generateId p' = generateId p"
    and "threads p' = (if l = Exited then threads p - {tid} else threads p)"
    and "taskQue p = (case l of Executing tk \<Rightarrow> tk # taskQue p' | _ \<Rightarrow> taskQue p')"
    and "l \<noteq> Spawned" and "l \<noteq> Ready"
    and "l = Exited \<longrightarrow> \<not> isPoolRunning p \<and> taskQue p = []"
    and "l = WaitTimed \<or> l = WaitUntimed \<longrightarrow> isPoolRunning p \<and> taskQue p = []"
  using assms by (auto simp add: threadFunc_loop_def split: list.splits if_splits)

lemma threadFunc_timed_wake_frame:
  assumes "threadFunc_timed_wake tps tid lastT st now p = (p', l)"
  shows "taskQueMaxThreshHold p' = taskQueMaxThreshHold p"
    and "threadSizeThreshHold p' = threadSizeThreshHold p"
    and "initThreadSize p' = initThreadSize p"
    and "poolMode p' = poolMode p"
    and "isPoolRunning p' = isPoolRunning p"
    and "generateId p' = generateId p"
    and "threads p' = (if l = Exited then threads p - {tid} else threads p)"
    and "taskQue p = (case l of Executing tk \<Rightarrow> tk # taskQue p' | _ \<Rightarrow> taskQue p')"
    and "l \<noteq> Spawned" and "l \<noteq> Ready"
    and "sint (curThreadSize p') \<le> sint (curThreadSize p)"
    and "l = WaitTimed \<or> l = WaitUntimed \<longrightarrow> isPoolRunning p \<and> taskQue p = []"
proof -
  have w: "initThreadSize p <s curThreadSize p \<Longrightarrow>
             sint (curThreadSize p - 1) = sint (curThreadSize p) - 1"
    using sint_ge [of "initThreadSize p"] by (intro sint_pred) (simp add: word_sless_alt)
  show "taskQueMaxThreshHold p' = taskQueMaxThreshHold p"
    and "threadSizeThreshHold p' = threadSizeThreshHold p"
    and "initThreadSize p' = initThreadSize p"
    and "poolMode p' = poolMode p"
    and "isPoolRunning p' = isPoolRunning p"
    and "generateId p' = generateId p"
    and "threads p' = (if l = Exited then threads p - {tid} else threads p)"
    and "taskQue p = (case l of Executing tk \<Rightarrow> tk # taskQue p' | _ \<Rightarrow> taskQue p')"
    and "l \<noteq> Spawned" and "l \<noteq> Ready"
    and "sint (curThreadSize p') \<le> sint (curThreadSize p)"
    and "l = WaitTimed \<or> l = WaitUntimed \<longrightarrow> isPoolRunning p \<and> taskQue p = []"
    using assms w threadFunc_loop_frame [of tid p p' l]
    by (auto simp add: threadFunc_timed_wake_def word_sless_alt split: if_splits)
qed

lemma locked_loop: "locked_result tid p (threadFunc_loop tid p)"
proof -
  obtain p' l where r: "threadFunc_loop tid p = (p', l)"
    by (cases "threadFunc_loop tid p")
  show ?thesis
    using threadFunc_loop_frame [OF r] by (simp add: locked_result_def r)
qed

lemma locked_timed: "locked_result tid p (threadFunc_timed_wake tps tid lastT st now p)"
proof -
  obtain p' l where r: "threadFunc_timed_wake tps tid lastT st now p = (p', l)"
    by (cases "threadFunc_timed_wake tps tid lastT st now p")
  show ?thesis
    using threadFunc_timed_wake_frame [OF r] by (simp add: locked_result_def r)
qed

lemma locked_untimed: "locked_result tid p (threadFunc_untimed_wake tid p)"
  by (simp add: threadFunc_untimed_wake_def locked_loop)

text \<open>The kinds of step, with the state each leads to.\<close>

lemma fire_cases [consumes 1, case_names Rejected Admitted Locked Finished Entered Stop Notified Gone]:
  assumes "fire tps e s = Some s'"
  obtains
    (Rejected) tk where "e = Submit tk" "\<not> queue_not_full (pool s)" "s' = s"
  | (Admitted) tk p' started where "e = Submit tk" "queue_not_full (pool s)"
      "enqueue_and_grow tk (pool s) = Some (p', started)"
      "s' = s\<lparr>pool := p', workers := launch started (notify_all (workers s)),
               accepted := accepted s @ [tk]\<rparr>"
  | (Locked) tid w p' l where "workers s tid = Some w"
      "loc w = Ready \<or> loc w = WaitTimed \<or> loc w = WaitUntimed"
      "locked_result tid (pool s) (p', l)" "s' = settle s tid w (p', l)"
      "loc w \<noteq> WaitTimed \<longrightarrow> threadFunc_loop tid (pool s) = (p', l)"
  | (Finished) tid w tk now where "e = Finish tid now" "workers s tid = Some w"
      "loc w = Executing tk"
      "s' = s\<lparr>pool := threadFunc_done (pool s),
               workers := (workers s)(tid \<mapsto> w\<lparr>loc := Ready, lastTime := now\<rparr>),
               executed := executed s @ [tk]\<rparr>"
  | (Entered) tid w now where "e = Enter tid now" "workers s tid = Some w" "loc w = Spawned"
      "s' = s\<lparr>workers := (workers s)(tid \<mapsto> w\<lparr>loc := Ready, lastTime := now\<rparr>)\<rparr>"
  | (Stop) "e = Shutdown" "dtor s = Alive"
      "s' = s\<lparr>pool := dtor_stop (pool s), dtor := Stopping\<rparr>"
  | (Notified) "e = Notify" "dtor s = Stopping"
      "s' = s\<lparr>workers := notify_all (workers s), dtor := Draining\<rparr>"
  | (Gone) "e = Destroy" "dtor s = Draining" "dtor_may_return (pool s)"
      "s' = s\<lparr>dtor := Destroyed\<rparr>"
proof (cases e)
  case (Submit tk)
  then show ?thesis
    using assms Rejected [of tk] Admitted [of tk]
    by (auto simp add: fire_Submit simp del: fire.simps split: if_splits option.splits)
next
  case (Enter tid now)
  then show ?thesis
    using assms Entered [of tid now] by (auto split: if_splits option.splits)
next
  case (Acquire tid)
  obtain p' l where r: "threadFunc_loop tid (pool s) = (p', l)"
    by (cases "threadFunc_loop tid (pool s)")
  from Acquire assms obtain w where w: "workers s tid = Some w" "loc w = Ready"
    "s' = settle s tid w (threadFunc_loop tid (pool s))"
    by (auto split: if_splits option.splits)
  show ?thesis
    using Locked [of tid w p' l] w locked_loop [of tid "pool s"] by (simp add: r)
next
  case (Wake tid st now)
  show ?thesis
  proof (cases "workers s tid")
    case None
    then show ?thesis
      using Wake assms by (simp split: if_splits)
  next
    case (Some w)
    obtain p' l where r: "threadFunc_timed_wake tps tid (lastTime w) st now (pool s) = (p', l)"
      by (cases "threadFunc_timed_wake tps tid (lastTime w) st now (pool s)")
    obtain p'' l' where r': "threadFunc_untimed_wake tid (pool s) = (p'', l')"
      by (cases "threadFunc_untimed_wake tid (pool s)")
    show ?thesis
    proof (cases "loc w = WaitTimed")
      case True
      then show ?thesis
        using Wake assms Some Locked [of tid w p' l] locked_timed [of tid "pool s" tps "lastTime w" st now]
        by (simp add: r split: if_splits)
    next
      case False
      then show ?thesis
        using Wake assms Some Locked [of tid w p'' l'] locked_untimed [of tid "pool s"]
        by (simp add: r' split: if_splits) (simp add: r' [symmetric] threadFunc_untimed_wake_def)
    qed
  qed
next
  case (Finish tid now)
  then show ?thesis
    using assms Finished [of tid now] by (auto split: if_splits option.splits wloc.splits)
next
  case Shutdown
  then show ?thesis
    using assms Stop by (auto split: if_splits)
next
  case Notify
  then show ?thesis
    using assms Notified by (auto split: if_splits)
next
  case Destroy
  then show ?thesis
    using assms Gone by (auto split: if_splits)
qed

section \<open>Invariants of a step\<close>

lemma locked_resultD:
  assumes "locked_result tid p (p', l)"
  shows "taskQueMaxThreshHold p' = taskQueMaxThreshHold p"
    and "threadSizeThreshHold p' = threadSizeThreshHold p"
    and "initThreadSize p' = initThreadSize p"
    and "poolMode p' = poolMode p"
    and "isPoolRunning p' = isPoolRunning p"
    and "generateId p' = generateId p"
    and "threads p' = (if l = Exited then threads p - {tid} else threads p)"
    and "taskQue p = (case l of Executing tk \<Rightarrow> tk # taskQue p' | _ \<Rightarrow> taskQue p')"
    and "l \<noteq> Spawned" and "l \<noteq> Ready"
    and "sint (curThreadSize p') \<le> sint (curThreadSize p)"
    and "l = WaitTimed \<or> l = WaitUntimed \<longrightarrow> isPoolRunning p \<and> taskQue p = []"
  using assms by (auto simp add: locked_result_def)

lemma locked_queue_le:
  "locked_result tid p (p', l) \<Longrightarrow> length (taskQue p') \<le> length (taskQue p)"
  by (cases l) (simp_all add: locked_result_def)

lemma queue_bounded_step:
  assumes "fire tps e s = Some s'" and "queue_bounded s"
  shows "queue_bounded s'"
  using assms
proof (cases rule: fire_cases)
  case (Admitted tk p' started)
  then show ?thesis
    using enqueue_and_grow_rule [of tk "pool s" p' started]
    by (auto simp add: queue_bounded_def queue_not_full_def enqueue_and_grow_def Let_def
        split: if_splits option.splits)
next
  case (Locked tid w p' l)
  then show ?thesis
    using assms(2) locked_queue_le [of tid "pool s" p' l] locked_resultD(1) [of tid "pool s" p' l]
    by (simp add: queue_bounded_def settle_def)
qed (use assms(2) in \<open>simp_all add: queue_bounded_def threadFunc_done_def dtor_stop_def\<close>)

lemma fifo_step:
  assumes "fire tps e s = Some s'" and "fifo s"
  shows "fifo s'"
  using assms
proof (cases rule: fire_cases)
  case (Admitted tk p' started)
  then show ?thesis
    using enqueue_and_grow_rule [of tk "pool s" p' started] assms(2)
    by (simp add: fifo_def)
next
  case (Locked tid w p' l)
  then show ?thesis
    using assms(2) locked_resultD(8) [of tid "pool s" p' l]
    by (cases l) (simp_all add: fifo_def settle_def)
qed (use assms(2) in \<open>simp_all add: fifo_def threadFunc_done_def dtor_stop_def\<close>)

lemma growth_bounded_step:
  assumes "fire tps e s = Some s'" and "growth_bounded s"
  shows "growth_bounded s'"
  using assms
proof (cases rule: fire_cases)
  case (Admitted tk p' started)
  have "initThreadSize p' = initThreadSize (pool s)"
    and "threadSizeThreshHold p' = threadSizeThreshHold (pool s)"
    using Admitted(3)
    by (auto simp add: enqueue_and_grow_def Let_def split: if_splits option.splits)
  moreover have "sint (curThreadSize p') = sint (curThreadSize (pool s)) + int (length started)"
    and "length started \<le> 1"
    and "started \<noteq> [] \<longrightarrow> curThreadSize (pool s) <s threadSizeThreshHold (pool s)"
    using enqueue_and_grow_rule [OF Admitted(3)] by (auto split: if_splits)
  ultimately show ?thesis
    using assms(2) Admitted(4)
    by (cases started) (auto simp add: growth_bounded_def word_sless_alt)
next
  case (Locked tid w p' l)
  then show ?thesis
    using assms(2) locked_resultD(2,3,11) [of tid "pool s" p' l]
    by (cases l) (simp_all add: growth_bounded_def settle_def)
qed (use assms(2) in \<open>simp_all add: growth_bounded_def threadFunc_done_def dtor_stop_def\<close>)

lemma run_induct_inv:
  assumes step: "\<And>e s s'. fire tps e s = Some s' \<Longrightarrow> P s \<Longrightarrow> P s'"
  shows "run tps evs s = Some s' \<Longrightarrow> P s \<Longrightarrow> P s'"
proof (induction evs arbitrary: s)
  case Nil
  then show ?case by simp
next
  case (Cons e evs)
  then show ?case
    using step by (auto split: option.splits)
qed

section \<open>Facts about start\<close>

lemma Thread_new_Some:
  assumes "Thread_new g = Some (t, g')"
  shows "t = g" and "g' = g + 1" and "sint g' = sint g + 1"
proof -
  have n: "g \<noteq> INT32_MAX" and t: "t = g" and g: "g' = g + 1"
    using assms by (auto simp add: Thread_new_def split: if_splits)
  have "sint g \<noteq> sint INT32_MAX"
    using n by (auto dest: signed_word_eqI)
  then have "sint g < 2147483647"
    using sint_lt [of g] by (simp add: INT32_MAX_def)
  then show "sint g' = sint g + 1"
    using g by (simp add: sint_succ)
  show "t = g" by (fact t)
  show "g' = g + 1" by (fact g)
qed

lemma configure_frame:
  "taskQue (configure c p) = taskQue p \<and> threads (configure c p) = threads p
   \<and> generateId (configure c p) = generateId p
   \<and> isPoolRunning (configure c p) = isPoolRunning p"
  by (cases c)
    (simp_all add: setMode_def setTaskQueMaxThreshHold_def setThreadSizeThreshHold_def
      checkRunningState_def)

lemma fold_configure_frame:
  "taskQue (fold configure cfg p) = taskQue p \<and> threads (fold configure cfg p) = threads p
   \<and> generateId (fold configure cfg p) = generateId p
   \<and> isPoolRunning (fold configure cfg p) = isPoolRunning p"
  by (induction cfg arbitrary: p) (simp_all add: configure_frame)

lemma start_create_frame:
  "start_create k p = Some p' \<Longrightarrow>
     taskQue p' = taskQue p \<and> taskQueMaxThreshHold p' = taskQueMaxThreshHold p
     \<and> threadSizeThreshHold p' = threadSizeThreshHold p
     \<and> curThreadSize p' = curThreadSize p \<and> initThreadSize p' = initThreadSize p
     \<and> poolMode p' = poolMode p \<and> isPoolRunning p' = isPoolRunning p"
proof (induction k arbitrary: p)
  case 0
  then show ?case by simp
next
  case (Suc k)
  then show ?case
    by (fastforce split: option.splits)
qed

lemma start_create_keys:
  "start_create k p = Some p' \<Longrightarrow> \<forall>t \<in> threads p. sint t < sint (generateId p) \<Longrightarrow>
     \<forall>t \<in> threads p'. sint t < sint (generateId p')"
proof (induction k arbitrary: p)
  case 0
  then show ?case by simp
next
  case (Suc k)
  from Suc.prems(1) obtain t g where n: "Thread_new (generateId p) = Some (t, g)"
    and r: "start_create k (p\<lparr>generateId := g, threads := insert t (threads p)\<rparr>) = Some p'"
    by (auto split: option.splits)
  have "\<forall>u \<in> threads (p\<lparr>generateId := g, threads := insert t (threads p)\<rparr>).
          sint u < sint (generateId (p\<lparr>generateId := g, threads := insert t (threads p)\<rparr>))"
    using Thread_new_Some [OF n] Suc.prems(2) by auto
  then show ?case
    using Suc.IH [OF r] by simp
qed

lemma start_launch_frame:
  "start_launch k i p = Some (p', started) \<Longrightarrow>
     taskQue p' = taskQue p \<and> taskQueMaxThreshHold p' = taskQueMaxThreshHold p
     \<and> threadSizeThreshHold p' = threadSizeThreshHold p
     \<and> curThreadSize p' = curThreadSize p \<and> initThreadSize p' = initThreadSize p
     \<and> poolMode p' = poolMode p \<and> isPoolRunning p' = isPoolRunning p
     \<and> threads p' = threads p \<and> generateId p' = generateId p
     \<and> set started \<subseteq> threads p"
proof (induction k arbitrary: i p p' started)
  case 0
  then show ?case by simp
next
  case (Suc k)
  from Suc.prems obtain q rest where i: "i \<in> threads p"
    and r: "start_launch k (i + 1) (p\<lparr>idleThreadSize := idleThreadSize p + 1\<rparr>) = Some (q, rest)"
    and e: "p' = q" "started = i # rest"
    by (auto split: if_splits option.splits)
  show ?case
    using Suc.IH [OF r] i e by simp
qed

lemma start_frame:
  assumes "start n p = Some (p', started)"
  shows "taskQue p' = taskQue p" and "taskQueMaxThreshHold p' = taskQueMaxThreshHold p"
    and "threadSizeThreshHold p' = threadSizeThreshHold p"
    and "curThreadSize p' = n" and "initThreadSize p' = n"
    and "poolMode p' = poolMode p" and "isPoolRunning p'"
    and "set started \<subseteq> threads p'"
    and "(\<forall>t \<in> threads p. sint t < sint (generateId p)) \<longrightarrow>
           (\<forall>t \<in> threads p'. sint t < sint (generateId p'))"
proof -
  let ?p1 = "p\<lparr>isPoolRunning := True, initThreadSize := n, curThreadSize := n\<rparr>"
  from assms obtain p2 where c: "start_create (nat (sint n)) ?p1 = Some p2"
    and l: "start_launch (nat (sint n)) 0 p2 = Some (p', started)"
    by (auto simp add: start_def Let_def split: option.splits)
  note f = start_create_frame [OF c] start_launch_frame [OF l]
  show "taskQue p' = taskQue p" and "taskQueMaxThreshHold p' = taskQueMaxThreshHold p"
    and "threadSizeThreshHold p' = threadSizeThreshHold p"
    and "curThreadSize p' = n" and "initThreadSize p' = n"
    and "poolMode p' = poolMode p" and "isPoolRunning p'"
    and "set started \<subseteq> threads p'"
    using f by simp_all
  show "(\<forall>t \<in> threads p. sint t < sint (generateId p)) \<longrightarrow>
           (\<forall>t \<in> threads p'. sint t < sint (generateId p'))"
    using start_create_keys [OF c] f by simp
qed

lemma start_create_numeral:
  "start_create (numeral v) p =
     (case Thread_new (generateId p) of
        None \<Rightarrow> None
      | Some (threadId, g) \<Rightarrow>
          start_create (pred_numeral v) (p\<lparr>generateId := g, threads := insert threadId (threads p)\<rparr>))"
  by (simp add: numeral_eq_Suc)

lemma start_launch_numeral:
  "start_launch (numeral v) i p =
     (if i \<in> threads p
      then (case start_launch (pred_numeral v) (i + 1) (p\<lparr>idleThreadSize := idleThreadSize p + 1\<rparr>) of
              None \<Rightarrow> None
            | Some (p', started) \<Rightarrow> Some (p', i # started))
      else None)"
  by (simp add: numeral_eq_Suc)

lemmas eval_defs = program_def boot_def start_def setMode_def setTaskQueMaxThreshHold_def
  setThreadSizeThreshHold_def checkRunningState_def ThreadPool_new_def Thread_new_def
  INT32_MAX_def TASK_MAX_THRESHHOLD_def THREAD_MAX_THRESHHOLD_def THREAD_MAX_IDLE_TIME_def
  fire_Submit queue_not_full_def to_size_t_def enqueue_and_grow_def Let_def word_sless_alt
  launch_def notify_all_def settle_def threadFunc_loop_def threadFunc_timed_wake_def
  threadFunc_untimed_wake_def threadFunc_done_def dtor_stop_def dtor_may_return_def
  dur_count_def start_create_numeral start_launch_numeral

section \<open>Invariants of a run\<close>

lemma config_step:
  assumes "fire tps e s = Some s'"
  shows "config_of s' = config_of s"
  using assms
proof (cases rule: fire_cases)
  case (Admitted tk p' started)
  then show ?thesis
    by (auto simp add: config_of_def enqueue_and_grow_def Let_def split: if_splits option.splits)
next
  case (Locked tid w p' l)
  then show ?thesis
    using locked_resultD(1-4) [of tid "pool s" p' l]
    by (simp add: config_of_def settle_def)
qed (simp_all add: config_of_def threadFunc_done_def dtor_stop_def)

lemma config_run: "run tps evs s = Some s' \<Longrightarrow> config_of s' = config_of s"
proof (induction evs arbitrary: s)
  case Nil
  then show ?case by simp
next
  case (Cons e evs)
  then show ?case
    using config_step by (fastforce split: option.splits)
qed

lemma boot_initial:
  assumes "boot cfg n = Some s0"
  shows "taskQue (pool s0) = []" and "accepted s0 = []" and "taken s0 = []"
    and "executed s0 = []" and "dtor s0 = Alive"
    and "curThreadSize (pool s0) = n" and "initThreadSize (pool s0) = n"
    and "isPoolRunning (pool s0)"
    and "\<forall>t \<in> threads (pool s0). sint t < sint (generateId (pool s0))"
    and "\<forall>tid w. workers s0 tid = Some w \<longrightarrow> tid \<in> threads (pool s0) \<and> loc w = Spawned"
proof -
  let ?p = "fold configure cfg (ThreadPool_new :: 'a ThreadPool)"
  from assms obtain p started where st: "start n ?p = Some (p, started)"
    and s0: "s0 = \<lparr> pool = p, workers = launch started Map.empty,
                    accepted = [], taken = [], executed = [], dtor = Alive \<rparr>"
    by (auto simp add: boot_def split: option.splits)
  have c: "taskQue ?p = []" "threads ?p = {}"
    using fold_configure_frame [of cfg "ThreadPool_new :: 'a ThreadPool"]
    by (simp_all add: ThreadPool_new_def)
  note f = start_frame [OF st]
  show "taskQue (pool s0) = []" and "accepted s0 = []" and "taken s0 = []"
    and "executed s0 = []" and "dtor s0 = Alive"
    and "curThreadSize (pool s0) = n" and "initThreadSize (pool s0) = n"
    and "isPoolRunning (pool s0)"
    using f c by (simp_all add: s0)
  show "\<forall>t \<in> threads (pool s0). sint t < sint (generateId (pool s0))"
    using f(9) c by (simp add: s0)
  show "\<forall>tid w. workers s0 tid = Some w \<longrightarrow> tid \<in> threads (pool s0) \<and> loc w = Spawned"
    using f(8) by (auto simp add: s0 launch_def split: if_splits)
qed

lemma program_Some:
  assumes "program cfg n tps evs = Some s"
  obtains s0 where "boot cfg n = Some s0" and "run tps evs s0 = Some s"
  using assms by (auto simp add: program_def split: option.splits)

lemma submit_busy_pool:
  "queue_not_full busy_pool
   \<and> submitTask 9 busy_pool []
       = Some (busy_pool\<lparr>threads := {0, 1}, curThreadSize := 2, idleThreadSize := 1,
                         taskQue := [9], taskSize := 1, generateId := 2\<rparr>,
               (Result_new 9 True :: (nat, nat) Result), [1])
   \<and> isValid (Result_new 9 True :: (nat, nat) Result)"
  by (auto simp add: submitTask_def queue_not_full_def enqueue_and_grow_def busy_pool_def
      ThreadPool_new_def Thread_new_def INT32_MAX_def THREAD_MAX_THRESHHOLD_def
      TASK_MAX_THRESHHOLD_def to_size_t_def word_sless_alt Let_def Result_new_def)

section \<open>The shutdown invariant\<close>


lemma enqueue_and_grow_ids:
  assumes "enqueue_and_grow sp q = Some (q', started)"
  shows "isPoolRunning q' = isPoolRunning q"
    and "threads q' = threads q \<union> set started"
    and "started = [] \<and> generateId q' = generateId q
         \<or> started = [generateId q] \<and> sint (generateId q') = sint (generateId q) + 1"
proof -
  show "isPoolRunning q' = isPoolRunning q" and "threads q' = threads q \<union> set started"
    using assms
    by (auto simp add: enqueue_and_grow_def Let_def Thread_new_def split: if_splits)
  show "started = [] \<and> generateId q' = generateId q
         \<or> started = [generateId q] \<and> sint (generateId q') = sint (generateId q) + 1"
  proof (cases "poolMode q = MODE_CACHED \<and> idleThreadSize q <s taskSize q + 1
                  \<and> curThreadSize q <s threadSizeThreshHold q")
    case True
    then obtain t g where n: "Thread_new (generateId q) = Some (t, g)"
      and e: "started = [t]" "generateId q' = g"
      using assms by (auto simp add: enqueue_and_grow_def Let_def split: option.splits)
    show ?thesis
      using Thread_new_Some [OF n] e by simp
  next
    case False
    then show ?thesis
      using assms by (auto simp add: enqueue_and_grow_def Let_def)
  qed
qed

lemma notify_all_loc:
  "notify_all ws tid = Some w' \<Longrightarrow> \<exists>w. ws tid = Some w \<and> loc w' = loc w"
  by (auto simp add: notify_all_def split: option.splits if_splits)




lemma launch_apply:
  "launch started ws tid =
     (if tid \<in> set started then Some \<lparr> loc = Spawned, lastTime = 0, notified = False \<rparr>
      else ws tid)"
  by (simp add: launch_def)










section \<open>Stability in Fixed mode\<close>

lemma fixed_stable_step:
  assumes "fire tps e s = Some s'" and "fixed_stable s"
  shows "fixed_stable s'"
proof (cases "poolMode (pool s) = MODE_FIXED \<and> dtor s = Alive")
  case False
  have "config_of s' = config_of s"
    using assms(1) by (rule config_step)
  then have m: "poolMode (pool s') = poolMode (pool s)"
    by (simp add: config_of_def)
  have "dtor s \<noteq> Alive \<longrightarrow> dtor s' \<noteq> Alive"
    using assms(1) by (cases rule: fire_cases) (auto simp add: settle_def)
  then show ?thesis
    using False m by (auto simp add: fixed_stable_def)
next
  case True
  then have R: "isPoolRunning (pool s)"
    and W: "\<forall>tid w. workers s tid = Some w \<longrightarrow> loc w \<noteq> Exited \<and> loc w \<noteq> WaitTimed"
    and C: "curThreadSize (pool s) = initThreadSize (pool s)"
    using assms(2) unfolding fixed_stable_def by blast+
  from assms(1) show ?thesis
  proof (cases rule: fire_cases)
    case (Rejected tk)
    then show ?thesis
      using assms(2) by simp
  next
    case (Admitted tk p' started)
    have g: "p' = (pool s)\<lparr>taskQue := taskQue (pool s) @ [tk], taskSize := taskSize (pool s) + 1\<rparr>"
      "started = []"
      using Admitted(3) True by (auto simp add: enqueue_and_grow_def Let_def)
    have "\<forall>tid w. launch started (notify_all (workers s)) tid = Some w \<longrightarrow>
             loc w \<noteq> Exited \<and> loc w \<noteq> WaitTimed"
    proof (intro allI impI)
      fix tid w
      assume "launch started (notify_all (workers s)) tid = Some w"
      then have "notify_all (workers s) tid = Some w"
        using g(2) by (simp add: launch_def)
      then obtain w0 where "workers s tid = Some w0" "loc w = loc w0"
        using notify_all_loc [of "workers s" tid w] by blast
      then show "loc w \<noteq> Exited \<and> loc w \<noteq> WaitTimed"
        using W by auto
    qed
    then show ?thesis
      using Admitted(4) g(1) R C unfolding fixed_stable_def by auto
  next
    case (Locked tid w p' l)
    have "loc w \<noteq> WaitTimed"
      using W Locked(1) by blast
    then have r: "threadFunc_loop tid (pool s) = (p', l)"
      using Locked(5) by simp
    then have l: "l \<noteq> Exited \<and> l \<noteq> WaitTimed"
      and p: "isPoolRunning p'" "curThreadSize p' = initThreadSize p'"
      using True R C by (auto simp add: threadFunc_loop_def split: list.splits if_splits)
    have "\<forall>tid' w'. ((workers s)(tid \<mapsto> w\<lparr>loc := l, notified := False\<rparr>)) tid' = Some w'
             \<longrightarrow> loc w' \<noteq> Exited \<and> loc w' \<noteq> WaitTimed"
      using W l by auto
    then show ?thesis
      using Locked(4) p unfolding fixed_stable_def by (auto simp add: settle_def)
  next
    case (Finished tid w tk now)
    have "\<forall>tid' w'. ((workers s)(tid \<mapsto> w\<lparr>loc := Ready, lastTime := now\<rparr>)) tid' = Some w'
             \<longrightarrow> loc w' \<noteq> Exited \<and> loc w' \<noteq> WaitTimed"
      using W by auto
    then show ?thesis
      using Finished(4) R C unfolding fixed_stable_def by (auto simp add: threadFunc_done_def)
  next
    case (Entered tid w now)
    have "\<forall>tid' w'. ((workers s)(tid \<mapsto> w\<lparr>loc := Ready, lastTime := now\<rparr>)) tid' = Some w'
             \<longrightarrow> loc w' \<noteq> Exited \<and> loc w' \<noteq> WaitTimed"
      using W by auto
    then show ?thesis
      using Entered(4) R C unfolding fixed_stable_def by auto
  next
    case Stop
    then show ?thesis
      by (simp add: fixed_stable_def)
  next
    case Notified
    then show ?thesis
      by (simp add: fixed_stable_def)
  next
    case Gone
    then show ?thesis
      by (simp add: fixed_stable_def)
  qed
qed

lemma fixed_stable_boot: "boot cfg n = Some s0 \<Longrightarrow> fixed_stable s0"
  using boot_initial [of cfg n s0] unfolding fixed_stable_def by auto

section \<open>Counting dispatches\<close>

lemma executing_update:
  "workers s' = (workers s)(tid \<mapsto> w') \<Longrightarrow>
     executing s' tk =
       (if loc w' = Executing tk then insert tid (executing s tk) else executing s tk - {tid})"
  by (auto simp add: executing_def)

lemma executing_same:
  "(\<And>tid. map_option loc (workers s' tid) = map_option loc (workers s tid)) \<Longrightarrow>
     executing s' tk = executing s tk"
proof -
  assume a: "\<And>tid. map_option loc (workers s' tid) = map_option loc (workers s tid)"
  have "\<And>tid. (\<exists>w. workers s' tid = Some w \<and> loc w = Executing tk)
              = (\<exists>w. workers s tid = Some w \<and> loc w = Executing tk)"
  proof -
    fix tid
    show "(\<exists>w. workers s' tid = Some w \<and> loc w = Executing tk)
              = (\<exists>w. workers s tid = Some w \<and> loc w = Executing tk)"
      using a [of tid] by (cases "workers s' tid"; cases "workers s tid") auto
  qed
  then show ?thesis
    by (simp add: executing_def)
qed

lemma notify_all_locs: "map_option loc (notify_all ws tid) = map_option loc (ws tid)"
  by (simp add: notify_all_def split: option.splits)

lemma count_list_snoc: "count_list (xs @ [y]) a = count_list xs a + (if y = a then 1 else 0)"
  by (induction xs) auto

lemma count_list_distinct: "distinct xs \<Longrightarrow> count_list xs a \<le> 1"
  by (induction xs) (auto simp add: count_list_0_iff)

lemma dispatch_counted_step:
  assumes f: "fire tps e s = Some s'" and i: "shutdown_inv s" and c: "dispatch_counted s"
  shows "dispatch_counted s'"
proof -
  from i have K: "\<forall>t \<in> threads (pool s). sint t < sint (generateId (pool s))"
    and L: "\<forall>tid w. workers s tid = Some w \<and> loc w \<noteq> Exited \<longrightarrow> tid \<in> threads (pool s)"
    unfolding shutdown_inv_def by blast+
  have C: "count_list (taken s) tk = count_list (executed s) tk + card (executing s tk)" for tk
    using c by (simp add: dispatch_counted_def)
  from f show ?thesis
  proof (cases rule: fire_cases)
    case (Rejected tk)
    then show ?thesis
      using c by simp
  next
    case (Admitted tk p' started)
    note e = enqueue_and_grow_ids [OF Admitted(3)]
    have w': "workers s' = launch started (notify_all (workers s))"
      using Admitted(4) by simp
    have "executing s' tk = executing s tk" for tk
    proof (rule set_eqI)
      fix tid
      show "tid \<in> executing s' tk \<longleftrightarrow> tid \<in> executing s tk"
      proof (cases "tid \<in> set started")
        case False
        have "map_option loc (workers s' tid) = map_option loc (workers s tid)"
          using False by (simp add: w' launch_apply notify_all_locs)
        then show ?thesis
          by (cases "workers s' tid"; cases "workers s tid") (auto simp add: executing_def)
      next
        case True
        then have g: "tid = generateId (pool s)"
          using e(3) by auto
        have "tid \<notin> executing s tk"
        proof
          assume "tid \<in> executing s tk"
          then obtain w where "workers s tid = Some w" "loc w = Executing tk"
            by (auto simp add: executing_def)
          then have "tid \<in> threads (pool s)"
            using L by auto
          then show False
            using K g by auto
        qed
        moreover have "tid \<notin> executing s' tk"
          using True by (simp add: executing_def w' launch_apply)
        ultimately show ?thesis
          by simp
      qed
    qed
    then show ?thesis
      using C Admitted(4) by (simp add: dispatch_counted_def)
  next
    case (Locked tid w p' l)
    have n: "tid \<notin> executing s tk" for tk
      using Locked(1,2) by (auto simp add: executing_def)
    have u: "workers s' = (workers s)(tid \<mapsto> w\<lparr>loc := l, notified := False\<rparr>)"
      using Locked(4) by (simp add: settle_def)
    have x: "executed s' = executed s"
      using Locked(4) by (simp add: settle_def)
    show ?thesis
      unfolding dispatch_counted_def
    proof
      fix tk
      show "count_list (taken s') tk = count_list (executed s') tk + card (executing s' tk)"
      proof (cases "l = Executing tk")
        case True
        then have "taken s' = taken s @ [tk]"
          using Locked(4) by (simp add: settle_def)
        moreover have "executing s' tk = insert tid (executing s tk)"
          using executing_update [OF u, of tk] True by simp
        ultimately show ?thesis
          using C [of tk] n [of tk] x by (simp add: count_list_snoc)
      next
        case False
        then have "count_list (taken s') tk = count_list (taken s) tk"
          using Locked(4) by (cases l) (auto simp add: settle_def count_list_snoc)
        moreover have "executing s' tk = executing s tk"
          using executing_update [OF u, of tk] False n [of tk] by simp
        ultimately show ?thesis
          using C [of tk] x by simp
      qed
    qed
  next
    case (Finished tid w tk0 now)
    have u: "workers s' = (workers s)(tid \<mapsto> w\<lparr>loc := Ready, lastTime := now\<rparr>)"
      using Finished(4) by simp
    have m: "tid \<in> executing s tk \<longleftrightarrow> tk = tk0" for tk
      using Finished(2,3) by (auto simp add: executing_def)
    show ?thesis
      unfolding dispatch_counted_def
    proof
      fix tk
      have a: "executing s' tk = executing s tk - {tid}"
        using executing_update [OF u, of tk] by simp
      have b: "taken s' = taken s" "executed s' = executed s @ [tk0]"
        using Finished(4) by simp_all
      show "count_list (taken s') tk = count_list (executed s') tk + card (executing s' tk)"
      proof (cases "tk = tk0")
        case True
        then have "0 < card (executing s tk)"
          using m [of tk] by (auto simp add: card_gt_0_iff)
        then have "card (executing s tk) = card (executing s' tk) + 1"
          using a m [of tk] True by simp
        then show ?thesis
          using C [of tk] b True by (simp add: count_list_snoc)
      next
        case False
        then have "executing s' tk = executing s tk"
          using a m [of tk] by simp
        then show ?thesis
          using C [of tk] b False by (simp add: count_list_snoc)
      qed
    qed
  next
    case (Entered tid w now)
    have u: "workers s' = (workers s)(tid \<mapsto> w\<lparr>loc := Ready, lastTime := now\<rparr>)"
      using Entered(4) by simp
    have n: "tid \<notin> executing s tk" for tk
      using Entered(2,3) by (auto simp add: executing_def)
    have "executing s' tk = executing s tk" for tk
      using executing_update [OF u, of tk] n [of tk] by simp
    then show ?thesis
      using C Entered(4) by (simp add: dispatch_counted_def)
  next
    case Stop
    have "executing s' tk = executing s tk" for tk
      using Stop(3) by (simp add: executing_def)
    then show ?thesis
      using C Stop(3) by (simp add: dispatch_counted_def)
  next
    case Notified
    have "executing s' tk = executing s tk" for tk
      by (rule executing_same) (simp add: Notified(3) notify_all_locs)
    then show ?thesis
      using C Notified(3) by (simp add: dispatch_counted_def)
  next
    case Gone
    have "executing s' tk = executing s tk" for tk
      using Gone(4) by (simp add: executing_def)
    then show ?thesis
      using C Gone(4) by (simp add: dispatch_counted_def)
  qed
qed

section \<open>Result handles in a run\<close>


lemma submitTask_handle:
  "submitTask tk p [] = Some (p', r, started) \<Longrightarrow> r = Result_new tk (queue_not_full p)"
  by (auto simp add: submitTask_now split: if_splits option.splits)

lemma fire_logs:
  assumes "fire tps e s = Some s'"
  shows "accepted s' =
           (case e of
              Submit tk \<Rightarrow> if queue_not_full (pool s) then accepted s @ [tk] else accepted s
            | _ \<Rightarrow> accepted s)"
    and "(\<forall>tid now. e \<noteq> Finish tid now) \<longrightarrow> executed s' = executed s"
    and "\<forall>tid now w tk. e = Finish tid now \<and> workers s tid = Some w \<and> loc w = Executing tk
           \<longrightarrow> executed s' = executed s @ [tk]"
proof -
  show "accepted s' =
           (case e of
              Submit tk \<Rightarrow> if queue_not_full (pool s) then accepted s @ [tk] else accepted s
            | _ \<Rightarrow> accepted s)"
    using assms by (cases e) (auto simp add: fire_Submit settle_def simp del: fire.simps(1)
        split: if_splits option.splits prod.splits wloc.splits)
  show "(\<forall>tid now. e \<noteq> Finish tid now) \<longrightarrow> executed s' = executed s"
    using assms by (cases e) (auto simp add: fire_Submit settle_def simp del: fire.simps(1)
        split: if_splits option.splits prod.splits wloc.splits)
  show "\<forall>tid now w tk. e = Finish tid now \<and> workers s tid = Some w \<and> loc w = Executing tk
           \<longrightarrow> executed s' = executed s @ [tk]"
    using assms by (cases e) (auto split: if_splits option.splits wloc.splits)
qed

lemma dtor_evaluate_frame:
  "handles (dtor_evaluate tps x) = handles x"
  "result_ptr (dtor_evaluate tps x) = result_ptr x"
  "accepted (base (dtor_evaluate tps x)) = accepted (base x)"
  "executed (base (dtor_evaluate tps x)) = executed (base x)"
  by (auto simp add: dtor_evaluate_def split: option.splits if_splits)

lemma handles_inv_frame:
  assumes "handles_inv rn x" and "handles x' = handles x" and "result_ptr x' = result_ptr x"
    and "accepted (base x') = accepted (base x)" and "executed (base x') = executed (base x)"
  shows "handles_inv rn x'"
  using assms by (simp add: handles_inv_def submits_def)


lemma executed_taken:
  assumes "dispatch_counted s" and "tk \<in> set (executed s)"
  shows "tk \<in> set (taken s)"
proof -
  have "count_list (executed s) tk \<noteq> 0"
    using assms(2) by (simp add: count_list_0_iff)
  then have "count_list (taken s) tk \<noteq> 0"
    using assms(1) by (simp add: dispatch_counted_def)
  then show ?thesis
    by (simp add: count_list_0_iff)
qed

lemma taken_accepted: "fifo s \<Longrightarrow> tk \<in> set (taken s) \<Longrightarrow> tk \<in> set (accepted s)"
  by (metis fifo_def Un_iff set_append)

lemma executing_not_executed:
  assumes c: "dispatch_counted s" and f: "fifo s" and d: "distinct (accepted s)"
    and w: "workers s tid = Some w" "loc w = Executing tk"
  shows "tk \<notin> set (executed s)" and "tk \<in> set (taken s)"
proof -
  have "tid \<in> executing s tk"
    using w by (auto simp add: executing_def)
  then have p: "0 < card (executing s tk)"
    by (auto simp add: card_gt_0_iff)
  have "distinct (taken s)"
    using f d by (auto simp add: fifo_def dest: arg_cong [where f = distinct])
  then have "count_list (taken s) tk \<le> 1"
    by (rule count_list_distinct)
  moreover have q: "count_list (taken s) tk = count_list (executed s) tk + card (executing s tk)"
    using c by (simp add: dispatch_counted_def)
  ultimately have "count_list (executed s) tk = 0"
    using p by simp
  then show "tk \<notin> set (executed s)"
    by (simp add: count_list_0_iff)
  have "count_list (taken s) tk \<noteq> 0"
    using p q by arith
  then show "tk \<in> set (taken s)"
    by (simp add: count_list_0_iff)
qed

lemma executing_taken:
  assumes c: "dispatch_counted s" and w: "workers s tid = Some w" "loc w = Executing tk"
  shows "tk \<in> set (taken s)"
proof -
  have "tid \<in> executing s tk"
    using w by (auto simp add: executing_def)
  then have "0 < card (executing s tk)"
    by (auto simp add: card_gt_0_iff)
  moreover have "count_list (taken s) tk = count_list (executed s) tk + card (executing s tk)"
    using c by (simp add: dispatch_counted_def)
  ultimately have "count_list (taken s) tk \<noteq> 0"
    by arith
  then show ?thesis
    by (simp add: count_list_0_iff)
qed

lemma handles_inv_submit:
  assumes i: "handles_inv rn x" and f: "fifo (base x)" and c: "dispatch_counted (base x)"
    and s: "fire tps (Submit tk0) (base x) = Some s'"
  shows "handles_inv rn
           (x\<lparr>base := s',
              handles := handles x @ [Result_new tk0 (queue_not_full (pool (base x)))],
              result_ptr := (result_ptr x)(tk0 \<mapsto> length (handles x))\<rparr>)"
    (is "handles_inv rn ?x'")
proof -
  let ?v = "queue_not_full (pool (base x))"
  let ?H = "handles x"
  from i have U1: "\<forall>tk k. result_ptr x tk = Some k \<longrightarrow> k < length ?H \<and> task (?H ! k) = tk"
    and U2: "\<forall>tk \<in> set (submits x). result_ptr x tk \<noteq> None"
    and U3: "set (accepted (base x)) \<subseteq> set (submits x)"
    and CD: "distinct (submits x) \<longrightarrow>
            distinct (accepted (base x))
            \<and> (\<forall>tk k. result_ptr x tk = Some k \<longrightarrow>
                  ?H ! k =
                    (if tk \<in> set (executed (base x))
                     then Result_setVal (rn tk) (Result_new tk (tk \<in> set (accepted (base x))))
                     else Result_new tk (tk \<in> set (accepted (base x)))))"
    unfolding handles_inv_def by blast+
  have acc: "accepted s' = (if ?v then accepted (base x) @ [tk0] else accepted (base x))"
    using fire_logs(1) [OF s] by simp
  have exe: "executed s' = executed (base x)"
    using fire_logs(2) [OF s] by simp
  have sub: "submits ?x' = submits x @ [tk0]"
    by (simp add: submits_def Result_new_def)
  have U1': "\<forall>tk k. result_ptr ?x' tk = Some k \<longrightarrow>
               k < length (handles ?x') \<and> task (handles ?x' ! k) = tk"
  proof (intro allI impI)
    fix tk k
    assume p: "result_ptr ?x' tk = Some k"
    show "k < length (handles ?x') \<and> task (handles ?x' ! k) = tk"
    proof (cases "tk = tk0")
      case True
      then have "k = length ?H"
        using p by simp
      then show ?thesis
        using True by (simp add: Result_new_def)
    next
      case False
      then have "result_ptr x tk = Some k"
        using p by simp
      then have "k < length ?H \<and> task (?H ! k) = tk"
        using U1 by blast
      then show ?thesis
        by (simp add: nth_append)
    qed
  qed
  have U2': "\<forall>tk \<in> set (submits ?x'). result_ptr ?x' tk \<noteq> None"
    using U2 by (auto simp add: sub)
  have U3': "set (accepted (base ?x')) \<subseteq> set (submits ?x')"
    using U3 by (auto simp add: sub acc)
  have CD': "distinct (submits ?x') \<longrightarrow>
            distinct (accepted (base ?x'))
            \<and> (\<forall>tk k. result_ptr ?x' tk = Some k \<longrightarrow>
                  handles ?x' ! k =
                    (if tk \<in> set (executed (base ?x'))
                     then Result_setVal (rn tk) (Result_new tk (tk \<in> set (accepted (base ?x'))))
                     else Result_new tk (tk \<in> set (accepted (base ?x')))))"
  proof
    assume "distinct (submits ?x')"
    then have d: "distinct (submits x)" and n: "tk0 \<notin> set (submits x)"
      by (simp_all add: sub)
    have na: "tk0 \<notin> set (accepted (base x))"
      using n U3 by auto
    have ne: "tk0 \<notin> set (executed (base x))"
      using na executed_taken [OF c] taken_accepted [OF f] by blast
    have C1: "distinct (accepted (base x))"
      and C2: "\<forall>tk k. result_ptr x tk = Some k \<longrightarrow>
                  ?H ! k =
                    (if tk \<in> set (executed (base x))
                     then Result_setVal (rn tk) (Result_new tk (tk \<in> set (accepted (base x))))
                     else Result_new tk (tk \<in> set (accepted (base x))))"
      using CD d by blast+
    have C1': "distinct (accepted (base ?x'))"
      using C1 na by (simp add: acc)
    have C2': "\<forall>tk k. result_ptr ?x' tk = Some k \<longrightarrow>
                  handles ?x' ! k =
                    (if tk \<in> set (executed (base ?x'))
                     then Result_setVal (rn tk) (Result_new tk (tk \<in> set (accepted (base ?x'))))
                     else Result_new tk (tk \<in> set (accepted (base ?x'))))"
    proof (intro allI impI)
      fix tk k
      assume p: "result_ptr ?x' tk = Some k"
      show "handles ?x' ! k =
                    (if tk \<in> set (executed (base ?x'))
                     then Result_setVal (rn tk) (Result_new tk (tk \<in> set (accepted (base ?x'))))
                     else Result_new tk (tk \<in> set (accepted (base ?x'))))"
      proof (cases "tk = tk0")
        case True
        then have "k = length ?H"
          using p by simp
        then show ?thesis
          using True ne na by (simp add: exe acc)
      next
        case False
        then have q: "result_ptr x tk = Some k"
          using p by simp
        then have "k < length ?H"
          using U1 by blast
        then show ?thesis
          using C2 q False by (simp add: exe acc nth_append)
      qed
    qed
    show "distinct (accepted (base ?x'))
            \<and> (\<forall>tk k. result_ptr ?x' tk = Some k \<longrightarrow>
                  handles ?x' ! k =
                    (if tk \<in> set (executed (base ?x'))
                     then Result_setVal (rn tk) (Result_new tk (tk \<in> set (accepted (base ?x'))))
                     else Result_new tk (tk \<in> set (accepted (base ?x')))))"
      using C1' C2' by blast
  qed
  show ?thesis
    unfolding handles_inv_def using U1' U2' U3' CD' by blast
qed


lemma publish_pointed:
  assumes "result_ptr x tk = Some k" and "k < length (handles x)"
  shows "publish rn tk x = x\<lparr>handles := (handles x)[k := Result_setVal (rn tk) (handles x ! k)]\<rparr>"
  using assms by (simp add: publish_def handle_of_def Task_exec_def)

lemma handles_inv_finish:
  assumes i: "handles_inv rn x" and f: "fifo (base x)" and c: "dispatch_counted (base x)"
    and s: "fire tps (Finish tid now) (base x) = Some s'"
    and w: "workers (base x) tid = Some w" "loc w = Executing tk0"
  shows "handles_inv rn ((publish rn tk0 x)\<lparr>base := s'\<rparr>)"
proof -
  let ?H = "handles x"
  from i have U1: "\<forall>tk k. result_ptr x tk = Some k \<longrightarrow> k < length ?H \<and> task (?H ! k) = tk"
    and U2: "\<forall>tk \<in> set (submits x). result_ptr x tk \<noteq> None"
    and U3: "set (accepted (base x)) \<subseteq> set (submits x)"
    and CD: "distinct (submits x) \<longrightarrow>
            distinct (accepted (base x))
            \<and> (\<forall>tk k. result_ptr x tk = Some k \<longrightarrow>
                  ?H ! k =
                    (if tk \<in> set (executed (base x))
                     then Result_setVal (rn tk) (Result_new tk (tk \<in> set (accepted (base x))))
                     else Result_new tk (tk \<in> set (accepted (base x)))))"
    unfolding handles_inv_def by blast+
  have acc: "accepted s' = accepted (base x)"
    using fire_logs(1) [OF s] by simp
  have exe: "executed s' = executed (base x) @ [tk0]"
    using fire_logs(3) [OF s] w by blast
  have tkn: "tk0 \<in> set (taken (base x))"
    using executing_taken [OF c w] .
  then have "tk0 \<in> set (submits x)"
    using taken_accepted [OF f] U3 by blast
  then obtain k0 where k0: "result_ptr x tk0 = Some k0"
    using U2 by blast
  then have lt: "k0 < length ?H" and tk: "task (?H ! k0) = tk0"
    using U1 by blast+
  let ?H' = "?H[k0 := Result_setVal (rn tk0) (?H ! k0)]"
  let ?x' = "x\<lparr>handles := ?H', base := s'\<rparr>"
  have px: "(publish rn tk0 x)\<lparr>base := s'\<rparr> = ?x'"
    by (simp add: publish_pointed [OF k0 lt])
  have tsk: "\<And>k. k < length ?H \<Longrightarrow> task (?H' ! k) = task (?H ! k)"
  proof -
    fix k
    assume "k < length ?H"
    then show "task (?H' ! k) = task (?H ! k)"
      by (cases "k = k0") (simp_all add: Result_setVal_def)
  qed
  have sub: "submits ?x' = submits x"
    by (auto simp add: submits_def list_eq_iff_nth_eq tsk)
  have U1': "\<forall>tk k. result_ptr ?x' tk = Some k \<longrightarrow>
               k < length (handles ?x') \<and> task (handles ?x' ! k) = tk"
    using U1 tsk by auto
  have U2': "\<forall>tk \<in> set (submits ?x'). result_ptr ?x' tk \<noteq> None"
    using U2 unfolding sub by simp
  have U3': "set (accepted (base ?x')) \<subseteq> set (submits ?x')"
    using U3 unfolding sub by (simp add: acc)
  have CD': "distinct (submits ?x') \<longrightarrow>
            distinct (accepted (base ?x'))
            \<and> (\<forall>tk k. result_ptr ?x' tk = Some k \<longrightarrow>
                  handles ?x' ! k =
                    (if tk \<in> set (executed (base ?x'))
                     then Result_setVal (rn tk) (Result_new tk (tk \<in> set (accepted (base ?x'))))
                     else Result_new tk (tk \<in> set (accepted (base ?x')))))"
  proof
    assume "distinct (submits ?x')"
    then have d: "distinct (submits x)"
      unfolding sub .
    have C1: "distinct (accepted (base x))"
      and C2: "\<forall>tk k. result_ptr x tk = Some k \<longrightarrow>
                  ?H ! k =
                    (if tk \<in> set (executed (base x))
                     then Result_setVal (rn tk) (Result_new tk (tk \<in> set (accepted (base x))))
                     else Result_new tk (tk \<in> set (accepted (base x))))"
      using CD d by blast+
    have ne: "tk0 \<notin> set (executed (base x))"
      using executing_not_executed(1) [OF c f C1 w] .
    have h0: "?H ! k0 = Result_new tk0 (tk0 \<in> set (accepted (base x)))"
      using C2 k0 ne by simp
    have C2': "\<forall>tk k. result_ptr ?x' tk = Some k \<longrightarrow>
                  handles ?x' ! k =
                    (if tk \<in> set (executed (base ?x'))
                     then Result_setVal (rn tk) (Result_new tk (tk \<in> set (accepted (base ?x'))))
                     else Result_new tk (tk \<in> set (accepted (base ?x'))))"
    proof (intro allI impI)
      fix tk k
      assume "result_ptr ?x' tk = Some k"
      then have p: "result_ptr x tk = Some k"
        by simp
      then have kl: "k < length ?H" and kt: "task (?H ! k) = tk"
        using U1 by blast+
      show "handles ?x' ! k =
                    (if tk \<in> set (executed (base ?x'))
                     then Result_setVal (rn tk) (Result_new tk (tk \<in> set (accepted (base ?x'))))
                     else Result_new tk (tk \<in> set (accepted (base ?x'))))"
      proof (cases "tk = tk0")
        case True
        then have "k = k0"
          using p k0 by simp
        then show ?thesis
          using True lt h0 by (simp add: exe acc)
      next
        case False
        then have "k \<noteq> k0"
          using kt tk by auto
        then show ?thesis
          using C2 p False by (simp add: exe acc)
      qed
    qed
    show "distinct (accepted (base ?x'))
            \<and> (\<forall>tk k. result_ptr ?x' tk = Some k \<longrightarrow>
                  handles ?x' ! k =
                    (if tk \<in> set (executed (base ?x'))
                     then Result_setVal (rn tk) (Result_new tk (tk \<in> set (accepted (base ?x'))))
                     else Result_new tk (tk \<in> set (accepted (base ?x')))))"
      using C1 C2' by (simp add: acc)
  qed
  have "handles_inv rn ?x'"
    unfolding handles_inv_def using U1' U2' U3' CD' by blast
  then show ?thesis
    unfolding px .
qed

section \<open>Steps of a run with handles\<close>


lemma dtor_evaluate_base:
  "base (dtor_evaluate tps x) = base x
   \<or> fire tps Destroy (base x) = Some (base (dtor_evaluate tps x))"
  by (simp add: dtor_evaluate_def split: option.splits)

lemma dtor_evaluate_inv:
  assumes step: "\<And>e s s'. fire tps e s = Some s' \<Longrightarrow> P s \<Longrightarrow> P s'"
    and p: "P (base x)"
  shows "P (base (dtor_evaluate tps x))"
  using dtor_evaluate_base [of tps x] step [of Destroy "base x"] p by metis

lemma fire_world_cases [consumes 1, case_names Submitted Published Began Evaluated Worker]:
  assumes "fire_world tps rn xe x = Some x'"
  obtains
    (Submitted) tk s where "xe = Step (Submit tk)" and "fire tps (Submit tk) (base x) = Some s"
      and "x' = x\<lparr>base := s,
                  handles := handles x @ [Result_new tk (queue_not_full (pool (base x)))],
                  result_ptr := (result_ptr x)(tk \<mapsto> length (handles x))\<rparr>"
  | (Published) tid now s w tk where "xe = Step (Finish tid now)"
      and "fire tps (Finish tid now) (base x) = Some s"
      and "workers (base x) tid = Some w" and "loc w = Executing tk"
      and "x' = (publish rn tk x)\<lparr>base := s\<rparr>"
  | (Began) s where "xe = Step Notify" and "fire tps Notify (base x) = Some s"
      and "x' = dtor_evaluate tps (x\<lparr>base := s\<rparr>)"
  | (Evaluated) "xe = Step Destroy \<or> xe = Spurious" and "dtor (base x) = Draining"
      and "x' = dtor_evaluate tps x"
  | (Worker) e s where "xe = Step e" and "fire tps e (base x) = Some s"
      and "\<forall>tk. e \<noteq> Submit tk" and "\<forall>tid now. e \<noteq> Finish tid now"
      and "x' = x\<lparr>base := s,
                  exit_signal :=
                    (exit_signal x \<or> (dtor (base x) = Draining \<and> notifies_exit tps e (base x)))\<rparr>"
proof (cases xe)
  case Spurious
  then show ?thesis
    using assms Evaluated by (simp split: if_splits)
next
  case (Step e)
  show ?thesis
  proof (cases e)
    case (Submit tk)
    then show ?thesis
      using assms Step Submitted [of tk]
      by (auto simp del: fire.simps split: option.splits dest: submitTask_handle)
  next
    case (Enter tid now)
    then show ?thesis
      using assms Step Worker [of e] by (auto simp del: fire.simps split: option.splits)
  next
    case (Acquire tid)
    then show ?thesis
      using assms Step Worker [of e] by (auto simp del: fire.simps split: option.splits)
  next
    case (Wake tid st now)
    then show ?thesis
      using assms Step Worker [of e] by (auto simp del: fire.simps split: option.splits)
  next
    case (Finish tid now)
    then show ?thesis
      using assms Step Published [of tid now]
      by (auto simp del: fire.simps split: option.splits wloc.splits)
  next
    case Shutdown
    then show ?thesis
      using assms Step Worker [of e] by (auto simp del: fire.simps split: option.splits)
  next
    case Notify
    then show ?thesis
      using assms Step Began by (auto simp del: fire.simps split: option.splits)
  next
    case Destroy
    then show ?thesis
      using assms Step Evaluated by (auto simp del: fire.simps split: if_splits)
  qed
qed

lemma fire_world_base:
  assumes w: "fire_world tps rn xe x = Some x'"
    and step: "\<And>e s s'. fire tps e s = Some s' \<Longrightarrow> P s \<Longrightarrow> P s'"
    and p: "P (base x)"
  shows "P (base x')"
  using w
proof (cases rule: fire_world_cases)
  case (Submitted tk s)
  then show ?thesis
    using step [of _ "base x" s] p by (simp del: fire.simps)
next
  case (Published tid now s w tk)
  then show ?thesis
    using step [of _ "base x" s] p by (simp del: fire.simps)
next
  case (Began s)
  then show ?thesis
    using dtor_evaluate_inv [of tps P "x\<lparr>base := s\<rparr>"] step step [of Notify "base x" s] p
    by (simp del: fire.simps)
next
  case Evaluated
  then show ?thesis
    using dtor_evaluate_inv [of tps P x] step p by (simp del: fire.simps)
next
  case (Worker e s)
  then show ?thesis
    using step [of _ "base x" s] p by (simp del: fire.simps)
qed
section \<open>Construction and configuration\<close>

text \<open>
  Claim C10. A newly constructed pool is in Fixed mode, not running, with the initial,
  current and idle thread counts and the task count zero, an empty queue and an empty
  registry. Its queue depth limit is \<^verbatim>\<open>INT32_MAX\<close>, that is \<open>2 ^ 31 - 1\<close>, so that a new
  pool admits a task whenever fewer than \<open>2 ^ 31 - 1\<close> are queued; its thread maximum
  is 1024.
\<close>

theorem new_pool_defaults:
  "poolMode (ThreadPool_new :: 'task ThreadPool) = MODE_FIXED
   \<and> \<not> isPoolRunning (ThreadPool_new :: 'task ThreadPool)
   \<and> initThreadSize (ThreadPool_new :: 'task ThreadPool) = 0
   \<and> curThreadSize (ThreadPool_new :: 'task ThreadPool) = 0
   \<and> idleThreadSize (ThreadPool_new :: 'task ThreadPool) = 0
   \<and> taskSize (ThreadPool_new :: 'task ThreadPool) = 0
   \<and> taskQue (ThreadPool_new :: 'task ThreadPool) = []
   \<and> threads (ThreadPool_new :: 'task ThreadPool) = {}
   \<and> sint (taskQueMaxThreshHold (ThreadPool_new :: 'task ThreadPool)) = 2 ^ 31 - 1
   \<and> queue_not_full ((ThreadPool_new :: 'task ThreadPool)\<lparr>taskQue := q\<rparr>) = (length q < 2 ^ 31 - 1)
   \<and> sint (threadSizeThreshHold (ThreadPool_new :: 'task ThreadPool)) = 1024"
  by (simp add: ThreadPool_new_def TASK_MAX_THRESHHOLD_def THREAD_MAX_THRESHHOLD_def
      INT32_MAX_def queue_not_full_def to_size_t_def)

text \<open>
  Claim C8. While the pool is running, \<open>setMode\<close>, \<open>setTaskQueMaxThreshHold\<close> and
  \<open>setThreadSizeThreshHold\<close> return the pool as it was; the setters have no error result.
  In Fixed mode \<open>setThreadSizeThreshHold\<close> returns the pool as it was, running or not.
\<close>

theorem setters_ignored:
  "(isPoolRunning p \<longrightarrow>
      setMode m p = p \<and> setTaskQueMaxThreshHold n p = p \<and> setThreadSizeThreshHold n p = p)
   \<and> (poolMode p = MODE_FIXED \<longrightarrow> setThreadSizeThreshHold n p = p)"
  by (simp add: setMode_def setTaskQueMaxThreshHold_def setThreadSizeThreshHold_def
      checkRunningState_def)

theorem setters_ignored_witness:
  "isPoolRunning running_pool
   \<and> poolMode running_pool = MODE_FIXED
   \<and> setMode MODE_CACHED running_pool = running_pool
   \<and> setTaskQueMaxThreshHold 5 running_pool = running_pool
   \<and> setThreadSizeThreshHold 5 running_pool = running_pool"
proof -
  have r: "isPoolRunning running_pool"
    by (simp add: running_pool_def)
  have f: "poolMode running_pool = MODE_FIXED"
    by (simp add: running_pool_def ThreadPool_new_def)
  show ?thesis
    using r f setters_ignored [of running_pool MODE_CACHED 5] by simp
qed

section \<open>Admission and the result handle\<close>

text \<open>
  Claim C1. When the queue is at its depth limit at the call and at every return of the
  admission wait up to the deadline, \<open>submitTask\<close> returns at the deadline with an invalid
  handle: no thread is started, and the pool is the one found at the deadline, queue and
  task count included. \<open>get\<close> on that handle returns at once, with an \<open>Any\<close> that holds
  the empty string literal.
\<close>

theorem submit_rejected_when_full:
  assumes "\<forall>q \<in> set (p # wakes). \<not> queue_not_full q"
  shows "submitTask sp p wakes
           = Some (last (p # wakes), (Result_new sp False :: ('task, 'v) Result), [])
         \<and> \<not> isValid (Result_new sp False :: ('task, 'v) Result)
         \<and> Result_get (Result_new sp False :: ('task, 'v) Result)
             = Some (Any_cstr [], Result_new sp False)"
  using wait_for_pred_all_false [OF assms]
  by (simp add: submitTask_def Result_get_def Result_new_def)

theorem submit_rejected_when_full_witness:
  "\<not> queue_not_full full_pool
   \<and> submitTask 9 full_pool [full_pool] = Some (full_pool, (Result_new 9 False :: (nat, nat) Result), [])
   \<and> Result_get (Result_new 9 False :: (nat, nat) Result) = Some (Any_cstr [], Result_new 9 False)"
proof -
  have h: "\<forall>q \<in> set [full_pool, full_pool]. \<not> queue_not_full q"
    by (simp add: queue_not_full_def to_size_t_def full_pool_def)
  show ?thesis
    using h submit_rejected_when_full [where ?'v = nat and sp = 9, OF h] by simp
qed

text \<open>
  Counterexample to claim C2. One value is published into a valid handle. The first
  \<open>get\<close> returns it and leaves the semaphore without a resource and \<open>any\<close> empty; the
  second \<open>get\<close> blocks.
\<close>

theorem second_get_blocks:
  "Result_get (Result_setVal (Any_val (7::nat)) (Result_new (1::nat) True))
     = Some (Any_val 7, \<lparr> any = Any_null, sem = \<lparr> resLimit = 0 \<rparr>, task = 1, isValid = True \<rparr>)
   \<and> Result_get \<lparr> any = (Any_null :: nat Any), sem = \<lparr> resLimit = 0 \<rparr>, task = (1::nat), isValid = True \<rparr>
     = None"
  by (simp add: Result_get_def Result_setVal_def Result_new_def Semaphore_new_def
      Semaphore_wait_def Semaphore_post_def word_sless_alt)

text \<open>
  Claim C2, amended. After one \<open>setVal\<close> on a valid handle the first \<open>get\<close> returns the
  published value without blocking. It takes the only resource of the semaphore and
  moves the value out, which leaves the handle as it was created: a \<open>get\<close> on that
  blocks until a value is published again.
\<close>

theorem first_get_returns:
  "Result_get (Result_setVal v (Result_new tk True)) = Some (v, Result_new tk True)
   \<and> Result_get (Result_new tk True :: ('task, 'v) Result) = None"
  by (simp add: Result_get_def Result_setVal_def Result_new_def Semaphore_new_def
      Semaphore_wait_def Semaphore_post_def word_sless_alt)

section \<open>Growth at submission\<close>

text \<open>
  Claim C5. A \<open>submitTask\<close> call that admits its task (a valid handle; for the header-only
  pool, the pending future) runs the enqueue-and-grow statements on the state its
  admission wait ends in, before it returns. These start at most one thread. They start
  exactly one, with the next thread id, when the mode is Cached, the task count with the
  new task counted exceeds \<open>idleThreadSize\<close>, and \<open>curThreadSize\<close> is below
  \<open>threadSizeThreshHold\<close>; then the registry gains that id and both counts go up by one,
  \<open>curThreadSize\<close> without wrapping. Otherwise, and always in Fixed mode, no thread is
  started and registry and counts stay as they are.
\<close>

theorem submit_spawn_rule:
  "(submitTask sp p wakes = Some (p', (r :: ('task, 'v) Result), started) \<and> isValid r \<longrightarrow>
      enqueue_and_grow sp (snd (wait_for_pred queue_not_full p wakes)) = Some (p', started))
   \<and> (submitTask_cxx11 sp (dflt :: 'r) p wakes = Some (p', Future_pending, started) \<longrightarrow>
      enqueue_and_grow sp (snd (wait_for_pred queue_not_full p wakes)) = Some (p', started))
   \<and> (enqueue_and_grow sp q = Some (q', spawned) \<longrightarrow>
        spawned = (if poolMode q = MODE_CACHED \<and> idleThreadSize q <s taskSize q'
                       \<and> curThreadSize q <s threadSizeThreshHold q
                    then [generateId q] else [])
         \<and> length spawned \<le> 1
         \<and> (poolMode q = MODE_FIXED \<longrightarrow> spawned = [])
         \<and> taskQue q' = taskQue q @ [sp]
         \<and> taskSize q' = taskSize q + 1
         \<and> threads q' = threads q \<union> set spawned
         \<and> curThreadSize q' = curThreadSize q + of_nat (length spawned)
         \<and> idleThreadSize q' = idleThreadSize q + of_nat (length spawned)
         \<and> sint (curThreadSize q') = sint (curThreadSize q) + int (length spawned))"
proof -
  have a: "submitTask sp p wakes = Some (p', r, started) \<and> isValid r \<longrightarrow>
      enqueue_and_grow sp (snd (wait_for_pred queue_not_full p wakes)) = Some (p', started)"
    by (auto simp add: submitTask_def Result_new_def split: prod.splits bool.splits option.splits)
  have b: "submitTask_cxx11 sp dflt p wakes = Some (p', Future_pending, started) \<longrightarrow>
      enqueue_and_grow sp (snd (wait_for_pred queue_not_full p wakes)) = Some (p', started)"
    by (auto simp add: submitTask_cxx11_def split: prod.splits bool.splits option.splits)
  show ?thesis
    by (intro conjI) (rule a, rule b, rule impI, rule enqueue_and_grow_rule)
qed

theorem submit_spawn_rule_witness:
  "submitTask 9 busy_pool []
     = Some (busy_pool\<lparr>threads := {0, 1}, curThreadSize := 2, idleThreadSize := 1,
                       taskQue := [9], taskSize := 1, generateId := 2\<rparr>,
             (Result_new 9 True :: (nat, nat) Result), [1])
   \<and> isValid (Result_new 9 True :: (nat, nat) Result)
   \<and> submitTask_cxx11 9 (0::nat) busy_pool []
     = Some (busy_pool\<lparr>threads := {0, 1}, curThreadSize := 2, idleThreadSize := 1,
                       taskQue := [9], taskSize := 1, generateId := 2\<rparr>,
             Future_pending, [1])
   \<and> enqueue_and_grow 9 busy_pool
     = Some (busy_pool\<lparr>threads := {0, 1}, curThreadSize := 2, idleThreadSize := 1,
                       taskQue := [9], taskSize := 1, generateId := 2\<rparr>, [1])
   \<and> enqueue_and_grow 9 running_pool
     = Some (running_pool\<lparr>taskQue := [9], taskSize := 1\<rparr>, [])"
proof -
  let ?p' = "busy_pool\<lparr>threads := {0, 1}, curThreadSize := 2, idleThreadSize := 1,
                       taskQue := [9], taskSize := 1, generateId := 2\<rparr>"
  have e: "enqueue_and_grow 9 busy_pool = Some (?p', [1])"
    by (auto simp add: enqueue_and_grow_def busy_pool_def ThreadPool_new_def Thread_new_def
        INT32_MAX_def THREAD_MAX_THRESHHOLD_def word_sless_alt Let_def)
  have f: "enqueue_and_grow 9 running_pool = Some (running_pool\<lparr>taskQue := [9], taskSize := 1\<rparr>, [])"
    by (simp add: enqueue_and_grow_def running_pool_def ThreadPool_new_def Let_def)
  have n: "queue_not_full busy_pool"
    by (simp add: queue_not_full_def busy_pool_def ThreadPool_new_def TASK_MAX_THRESHHOLD_def
        INT32_MAX_def to_size_t_def)
  have s: "submitTask 9 busy_pool [] = Some (?p', (Result_new 9 True :: (nat, nat) Result), [1])"
    by (simp add: submitTask_def n e)
  have c: "submitTask_cxx11 9 (0::nat) busy_pool [] = Some (?p', Future_pending, [1])"
    by (simp add: submitTask_cxx11_def n e)
  have v: "isValid (Result_new 9 True :: (nat, nat) Result)"
    by (simp add: Result_new_def)
  show ?thesis
    using s c v f
      submit_spawn_rule [where sp = 9 and p = busy_pool and wakes = "[]" and p' = ?p'
        and r = "Result_new 9 True :: (nat, nat) Result" and started = "[1]"
        and dflt = "0::nat" and q = running_pool
        and q' = "running_pool\<lparr>taskQue := [9], taskSize := 1\<rparr>" and spawned = "[]"]
    by simp
qed

section \<open>Runs of the program\<close>

text \<open>
  Counterexample to claim C3. The depth limit is set to \<open>-1\<close> before a Fixed-mode pool is
  started with one thread, and one task is submitted. The admission wait compares the
  queue length 0 with \<^verbatim>\<open>(size_t)-1\<close>, the task is admitted, and the queue then holds one
  task under a limit of \<open>-1\<close>.
\<close>

theorem queue_exceeds_negative_limit:
  "map_option (taskQue \<circ> pool)
     (program [SetTaskQueMaxThreshHold (- 1)] 1 1 [Submit (5::nat)]) = Some [5]
   \<and> map_option (sint \<circ> taskQueMaxThreshHold \<circ> pool)
     (program [SetTaskQueMaxThreshHold (- 1)] 1 1 [Submit (5::nat)]) = Some (- 1)
   \<and> \<not> int (length [5::nat]) \<le> - 1"
  by (simp add: eval_defs del: fire.simps(1))

text \<open>
  Claim C3, amended. At every point of every run of a started pool the queue is no
  longer than the depth limit converted to \<^verbatim>\<open>size_t\<close>, which is how \<open>submitTask\<close> reads
  it; for a limit that is not negative this is the limit itself, so that then
  \<open>0 \<le> len(queue) \<le> taskQueMaxThreshHold\<close>. A task goes into the queue only in a
  \<open>submitTask\<close> call whose admission wait ended in a state where the queue length was
  below the converted limit, and it goes to the back of that state's queue.
\<close>

theorem queue_within_limit:
  assumes "program cfg n tps evs = Some s"
  shows "length (taskQue (pool s)) \<le> to_size_t (taskQueMaxThreshHold (pool s))
         \<and> (0 \<le> sint (taskQueMaxThreshHold (pool s)) \<longrightarrow>
               int (length (taskQue (pool s))) \<le> sint (taskQueMaxThreshHold (pool s)))
         \<and> (submitTask tk p wakes = Some (p', (r :: ('task, 'v) Result), started) \<and> isValid r \<longrightarrow>
               queue_not_full (snd (wait_for_pred queue_not_full p wakes))
               \<and> taskQue p' = taskQue (snd (wait_for_pred queue_not_full p wakes)) @ [tk])"
proof -
  from assms obtain s0 where b: "boot cfg n = Some s0" and r: "run tps evs s0 = Some s"
    by (rule program_Some)
  have "queue_bounded s0"
    using boot_initial(1) [OF b] by (simp add: queue_bounded_def)
  then have q: "queue_bounded s"
    using run_induct_inv [where P = queue_bounded, OF queue_bounded_step r] by simp
  have a: "length (taskQue (pool s)) \<le> to_size_t (taskQueMaxThreshHold (pool s))"
    using q by (simp add: queue_bounded_def)
  have c: "0 \<le> sint (taskQueMaxThreshHold (pool s)) \<longrightarrow>
               int (length (taskQue (pool s))) \<le> sint (taskQueMaxThreshHold (pool s))"
    using a by (auto simp add: to_size_t_nonneg)
  have d: "submitTask tk p wakes = Some (p', r, started) \<and> isValid r \<longrightarrow>
               queue_not_full (snd (wait_for_pred queue_not_full p wakes))
               \<and> taskQue p' = taskQue (snd (wait_for_pred queue_not_full p wakes)) @ [tk]"
  proof
    assume h: "submitTask tk p wakes = Some (p', r, started) \<and> isValid r"
    obtain b p1 where w: "wait_for_pred queue_not_full p wakes = (b, p1)"
      by (cases "wait_for_pred queue_not_full p wakes")
    have "b" and e: "enqueue_and_grow tk p1 = Some (p', started)"
      using h w by (auto simp add: submitTask_def Result_new_def split: bool.splits option.splits)
    then show "queue_not_full (snd (wait_for_pred queue_not_full p wakes))
               \<and> taskQue p' = taskQue (snd (wait_for_pred queue_not_full p wakes)) @ [tk]"
      using wait_for_pred_sound [OF w] enqueue_and_grow_rule [OF e] by (simp add: w)
  qed
  show ?thesis
    using a c d by blast
qed

theorem queue_within_limit_witness:
  "map_option (taskQue \<circ> pool)
     (program [SetTaskQueMaxThreshHold 2] 1 1 [Submit (5::nat), Submit 6, Submit 7]) = Some [5, 6]
   \<and> map_option (sint \<circ> taskQueMaxThreshHold \<circ> pool)
     (program [SetTaskQueMaxThreshHold 2] 1 1 [Submit (5::nat), Submit 6, Submit 7]) = Some 2
   \<and> queue_not_full busy_pool
   \<and> submitTask 9 busy_pool []
       = Some (busy_pool\<lparr>threads := {0, 1}, curThreadSize := 2, idleThreadSize := 1,
                         taskQue := [9], taskSize := 1, generateId := 2\<rparr>,
               (Result_new 9 True :: (nat, nat) Result), [1])"
proof -
  let ?run = "program [SetTaskQueMaxThreshHold 2] 1 1 [Submit (5::nat), Submit 6, Submit 7]"
  have e: "map_option (taskQue \<circ> pool) ?run = Some [5, 6]"
    "map_option (sint \<circ> taskQueMaxThreshHold \<circ> pool) ?run = Some 2"
    by (simp_all add: eval_defs del: fire.simps(1))
  then obtain s where s: "?run = Some s"
    by (cases ?run) auto
  show ?thesis
    using e submit_busy_pool
      queue_within_limit [OF s, where tk = 9 and p = busy_pool and wakes = "[]"
        and r = "Result_new 9 True :: (nat, nat) Result" and started = "[1]"
        and p' = "busy_pool\<lparr>threads := {0, 1}, curThreadSize := 2, idleThreadSize := 1,
                           taskQue := [9], taskSize := 1, generateId := 2\<rparr>"]
    by simp
qed

text \<open>
  Claim C6. In every run of a started pool the tasks taken so far, in the order in which
  workers took them, followed by the queue, are the tasks admitted so far in the order of
  their admission: the order of dispatch is a prefix of the order of admission, so that
  of two tasks admitted one before the other and both taken, the earlier was taken
  first. A worker that finds a task in the queue takes the head and leaves the rest.
\<close>

theorem fifo_dispatch:
  assumes "program cfg n tps evs = Some s"
  shows "taken s @ taskQue (pool s) = accepted s
         \<and> taken s = take (length (taken s)) (accepted s)
         \<and> (\<forall>i j. i < j \<and> j < length (taken s) \<longrightarrow>
               taken s ! i = accepted s ! i \<and> taken s ! j = accepted s ! j)
         \<and> (taskQue p \<noteq> [] \<longrightarrow> snd (threadFunc_loop tid p) = Executing (hd (taskQue p))
               \<and> taskQue (fst (threadFunc_loop tid p)) = tl (taskQue p))"
proof -
  from assms obtain s0 where b: "boot cfg n = Some s0" and r: "run tps evs s0 = Some s"
    by (rule program_Some)
  have "fifo s0"
    using boot_initial(1-3) [OF b] by (simp add: fifo_def)
  then have "fifo s"
    using run_induct_inv [where P = fifo, OF fifo_step r] by simp
  then have a: "taken s @ taskQue (pool s) = accepted s"
    by (simp add: fifo_def)
  have c: "taken s = take (length (taken s)) (accepted s)"
    using a by (metis append_eq_conv_conj)
  have c': "\<forall>i j. i < j \<and> j < length (taken s) \<longrightarrow>
               taken s ! i = accepted s ! i \<and> taken s ! j = accepted s ! j"
    using a by (metis nth_append order_less_trans)
  have d: "taskQue p \<noteq> [] \<longrightarrow> snd (threadFunc_loop tid p) = Executing (hd (taskQue p))
               \<and> taskQue (fst (threadFunc_loop tid p)) = tl (taskQue p)"
    by (simp add: threadFunc_loop_def split: list.splits)
  show ?thesis
    using a c c' d by blast
qed

theorem fifo_dispatch_witness:
  "map_option taken
     (program [] 1 1 [Submit (5::nat), Submit 6, Submit 7, Enter 0 0, Acquire 0, Finish 0 3, Acquire 0])
     = Some [5, 6]
   \<and> map_option (taskQue \<circ> pool)
     (program [] 1 1 [Submit (5::nat), Submit 6, Submit 7, Enter 0 0, Acquire 0, Finish 0 3, Acquire 0])
     = Some [7]
   \<and> map_option accepted
     (program [] 1 1 [Submit (5::nat), Submit 6, Submit 7, Enter 0 0, Acquire 0, Finish 0 3, Acquire 0])
     = Some [5, 6, 7]
   \<and> taskQue full_pool \<noteq> []
   \<and> snd (threadFunc_loop 0 full_pool) = Executing 5
   \<and> taskQue (fst (threadFunc_loop 0 full_pool)) = []"
proof -
  let ?run = "program [] 1 1
     [Submit (5::nat), Submit 6, Submit 7, Enter 0 0, Acquire 0, Finish 0 3, Acquire 0]"
  have e: "map_option taken ?run = Some [5, 6]"
    "map_option (taskQue \<circ> pool) ?run = Some [7]"
    "map_option accepted ?run = Some [5, 6, 7]"
    by (simp_all add: eval_defs del: fire.simps(1))
  then obtain s where s: "?run = Some s"
    by (cases ?run) auto
  have q: "taskQue full_pool \<noteq> []"
    by (simp add: full_pool_def)
  show ?thesis
    using e q fifo_dispatch [OF s, of full_pool 0] by (simp add: full_pool_def)
qed

text \<open>
  Counterexample to claim C4. A Cached-mode pool with thread threshold 1 is started with
  two threads. When \<open>start\<close> has returned and no task has been submitted,
  \<open>curThreadSize\<close> is 2: above the threshold, and above the number of tasks submitted.
\<close>

theorem threads_exceed_bounds_at_start:
  "map_option (poolMode \<circ> pool)
     (program [SetMode MODE_CACHED, SetThreadSizeThreshHold 1] 2 1 ([] :: nat event list))
     = Some MODE_CACHED
   \<and> map_option (sint \<circ> curThreadSize \<circ> pool)
     (program [SetMode MODE_CACHED, SetThreadSizeThreshHold 1] 2 1 ([] :: nat event list))
     = Some 2
   \<and> map_option (sint \<circ> threadSizeThreshHold \<circ> pool)
     (program [SetMode MODE_CACHED, SetThreadSizeThreshHold 1] 2 1 ([] :: nat event list))
     = Some 1
   \<and> map_option accepted
     (program [SetMode MODE_CACHED, SetThreadSizeThreshHold 1] 2 1 ([] :: nat event list))
     = Some []"
  by (simp add: eval_defs del: fire.simps(1))

text \<open>
  Claim C4, amended. In every run of a pool started with an initial thread count that
  is not above \<open>threadSizeThreshHold\<close>, in Cached mode as in Fixed mode, \<open>curThreadSize\<close>
  never exceeds \<open>threadSizeThreshHold\<close>, and never exceeds the initial thread count plus
  the number of tasks admitted so far.
\<close>

theorem growth_within_bounds:
  assumes "program cfg n tps evs = Some s"
    and "sint (initThreadSize (pool s)) \<le> sint (threadSizeThreshHold (pool s))"
  shows "sint (curThreadSize (pool s)) \<le> sint (threadSizeThreshHold (pool s))
         \<and> sint (curThreadSize (pool s)) \<le> sint (initThreadSize (pool s)) + int (length (accepted s))
         \<and> initThreadSize (pool s) = n"
proof -
  from assms(1) obtain s0 where b: "boot cfg n = Some s0" and r: "run tps evs s0 = Some s"
    by (rule program_Some)
  have c: "config_of s = config_of s0"
    using config_run [OF r] .
  then have "growth_bounded s0"
    using boot_initial(2,6,7) [OF b] assms(2) by (simp add: growth_bounded_def config_of_def)
  then have "growth_bounded s"
    using run_induct_inv [where P = growth_bounded, OF growth_bounded_step r] by simp
  then show ?thesis
    using c boot_initial(7) [OF b] by (simp add: growth_bounded_def config_of_def)
qed

theorem growth_within_bounds_witness:
  "map_option (sint \<circ> curThreadSize \<circ> pool)
     (program [SetMode MODE_CACHED, SetThreadSizeThreshHold 3] 1 1
        [Submit (5::nat), Submit 6, Submit 7, Submit 8]) = Some 3
   \<and> map_option (sint \<circ> threadSizeThreshHold \<circ> pool)
     (program [SetMode MODE_CACHED, SetThreadSizeThreshHold 3] 1 1
        [Submit (5::nat), Submit 6, Submit 7, Submit 8]) = Some 3
   \<and> map_option (sint \<circ> initThreadSize \<circ> pool)
     (program [SetMode MODE_CACHED, SetThreadSizeThreshHold 3] 1 1
        [Submit (5::nat), Submit 6, Submit 7, Submit 8]) = Some 1
   \<and> map_option accepted
     (program [SetMode MODE_CACHED, SetThreadSizeThreshHold 3] 1 1
        [Submit (5::nat), Submit 6, Submit 7, Submit 8]) = Some [5, 6, 7, 8]"
proof -
  let ?run = "program [SetMode MODE_CACHED, SetThreadSizeThreshHold 3] 1 1
        [Submit (5::nat), Submit 6, Submit 7, Submit 8]"
  have e: "map_option (sint \<circ> curThreadSize \<circ> pool) ?run = Some 3"
    "map_option (sint \<circ> threadSizeThreshHold \<circ> pool) ?run = Some 3"
    "map_option (sint \<circ> initThreadSize \<circ> pool) ?run = Some 1"
    "map_option accepted ?run = Some [5, 6, 7, 8]"
    by (simp_all add: eval_defs del: fire.simps(1))
  then obtain s where s: "?run = Some s"
    by (cases ?run) auto
  have h: "sint (initThreadSize (pool s)) \<le> sint (threadSizeThreshHold (pool s))"
    using e s by simp
  show ?thesis
    using e growth_within_bounds [OF s h] by simp
qed

section \<open>Shutdown\<close>




section \<open>Idle workers\<close>

text \<open>
  Claim C7. A worker's timed wait ends by timeout, the queue being empty. The worker
  removes itself from the registry and decrements \<open>curThreadSize\<close> and \<open>idleThreadSize\<close>
  exactly when at least 60 seconds have passed since \<open>lastTime\<close> (the worker's last task
  completion or, before its first task, its entry into \<open>threadFunc\<close>) and \<open>curThreadSize\<close>
  exceeds \<open>initThreadSize\<close>, and the decrement of \<open>curThreadSize\<close> does not wrap; otherwise,
  while the pool runs, it waits again without changing the pool. In Fixed mode a worker
  that finds the queue empty while the pool runs enters the untimed wait, and does so
  again whenever that wait returns. In every run of a Fixed-mode pool, until the
  destructor begins, the pool is running, no worker has returned, and \<open>curThreadSize\<close> is
  the initial thread count.
\<close>

theorem cached_idle_reclaim:
  assumes "0 < tps" and "taskQue p = []"
  shows "threadFunc_timed_wake tps tid lastT timeout now p =
           (if 60 * tps \<le> now - lastT \<and> sint (initThreadSize p) < sint (curThreadSize p)
            then (p\<lparr>threads := threads p - {tid},
                     curThreadSize := curThreadSize p - 1,
                     idleThreadSize := idleThreadSize p - 1\<rparr>, Exited)
            else if \<not> isPoolRunning p then (p\<lparr>threads := threads p - {tid}\<rparr>, Exited)
            else if poolMode p = MODE_CACHED then (p, WaitTimed)
            else (p, WaitUntimed))
         \<and> (sint (initThreadSize p) < sint (curThreadSize p) \<longrightarrow>
              sint (curThreadSize p - 1) = sint (curThreadSize p) - 1)
         \<and> (poolMode p = MODE_FIXED \<and> isPoolRunning p \<longrightarrow>
              threadFunc_loop tid p = (p, WaitUntimed)
              \<and> threadFunc_untimed_wake tid p = (p, WaitUntimed))
         \<and> (program cfg n tps evs = Some s \<and> poolMode (pool s) = MODE_FIXED \<and> dtor s = Alive \<longrightarrow>
              isPoolRunning (pool s)
              \<and> (\<forall>t w. workers s t = Some w \<longrightarrow> loc w \<noteq> Exited)
              \<and> curThreadSize (pool s) = n)"
proof -
  have b: "sint (initThreadSize p) < sint (curThreadSize p) \<Longrightarrow>
              sint (curThreadSize p - 1) = sint (curThreadSize p) - 1"
    using sint_ge [of "initThreadSize p"] by (intro sint_pred) simp
  have c: "threadFunc_timed_wake tps tid lastT timeout now p =
           (if 60 * tps \<le> now - lastT \<and> sint (initThreadSize p) < sint (curThreadSize p)
            then (p\<lparr>threads := threads p - {tid},
                     curThreadSize := curThreadSize p - 1,
                     idleThreadSize := idleThreadSize p - 1\<rparr>, Exited)
            else if \<not> isPoolRunning p then (p\<lparr>threads := threads p - {tid}\<rparr>, Exited)
            else if poolMode p = MODE_CACHED then (p, WaitTimed)
            else (p, WaitUntimed))"
    using idle_time_reached [OF assms(1)] assms(2)
    by (simp add: threadFunc_timed_wake_def threadFunc_loop_def word_sless_alt)
  have d: "poolMode p = MODE_FIXED \<and> isPoolRunning p \<longrightarrow>
              threadFunc_loop tid p = (p, WaitUntimed)
              \<and> threadFunc_untimed_wake tid p = (p, WaitUntimed)"
    using assms(2) by (simp add: threadFunc_loop_def threadFunc_untimed_wake_def)
  have e: "program cfg n tps evs = Some s \<and> poolMode (pool s) = MODE_FIXED \<and> dtor s = Alive \<longrightarrow>
              isPoolRunning (pool s)
              \<and> (\<forall>t w. workers s t = Some w \<longrightarrow> loc w \<noteq> Exited)
              \<and> curThreadSize (pool s) = n"
  proof
    assume h: "program cfg n tps evs = Some s \<and> poolMode (pool s) = MODE_FIXED \<and> dtor s = Alive"
    then obtain s0 where b0: "boot cfg n = Some s0" and r: "run tps evs s0 = Some s"
      using program_Some [of cfg n tps evs s] by blast
    have f: "fixed_stable s"
      using run_induct_inv [where P = fixed_stable, OF fixed_stable_step r] fixed_stable_boot [OF b0]
      by simp
    have "initThreadSize (pool s) = n"
      using config_run [OF r] boot_initial(7) [OF b0] by (simp add: config_of_def)
    then show "isPoolRunning (pool s)
              \<and> (\<forall>t w. workers s t = Some w \<longrightarrow> loc w \<noteq> Exited)
              \<and> curThreadSize (pool s) = n"
      using f h unfolding fixed_stable_def by auto
  qed
  show ?thesis
    using b c d e by blast
qed

theorem cached_idle_reclaim_witness:
  "(0::int) < 1000000000 \<and> taskQue cached_pool = []
   \<and> threadFunc_timed_wake 1000000000 1 0 timeout 61000000000 cached_pool
       = (cached_pool\<lparr>threads := {0}, curThreadSize := 1, idleThreadSize := 1\<rparr>, Exited)
   \<and> threadFunc_timed_wake 1000000000 1 0 timeout 59999999999 cached_pool
       = (cached_pool, WaitTimed)
   \<and> poolMode running_pool = MODE_FIXED \<and> isPoolRunning running_pool
   \<and> taskQue running_pool = []
   \<and> threadFunc_loop 0 running_pool = (running_pool, WaitUntimed)
   \<and> threadFunc_untimed_wake 0 running_pool = (running_pool, WaitUntimed)
   \<and> map_option (poolMode \<circ> pool)
       (program [] 1 1000000000
          [Enter 0 0, Acquire 0, Wake 0 no_timeout 5, Submit (5::nat), Wake 0 no_timeout 6])
     = Some MODE_FIXED
   \<and> map_option dtor
       (program [] 1 1000000000
          [Enter 0 0, Acquire 0, Wake 0 no_timeout 5, Submit (5::nat), Wake 0 no_timeout 6])
     = Some Alive
   \<and> map_option (worker_of 0)
       (program [] 1 1000000000
          [Enter 0 0, Acquire 0, Wake 0 no_timeout 5, Submit (5::nat), Wake 0 no_timeout 6])
     = Some (Some \<lparr> loc = Executing 5, lastTime = 0, notified = False \<rparr>)
   \<and> map_option (curThreadSize \<circ> pool)
       (program [] 1 1000000000
          [Enter 0 0, Acquire 0, Wake 0 no_timeout 5, Submit (5::nat), Wake 0 no_timeout 6])
     = Some 1"
proof -
  let ?run = "program [] 1 1000000000
          [Enter 0 0, Acquire 0, Wake 0 no_timeout 5, Submit (5::nat), Wake 0 no_timeout 6]"
  have t: "(0::int) < 1000000000"
    by simp
  have q: "taskQue cached_pool = []"
    by (simp add: cached_pool_def ThreadPool_new_def)
  have q': "taskQue running_pool = []"
    by (simp add: running_pool_def ThreadPool_new_def)
  have e: "{0, 1} - {1 :: int32} = {0}"
    by auto
  have f: "poolMode running_pool = MODE_FIXED \<and> isPoolRunning running_pool"
    by (simp add: running_pool_def ThreadPool_new_def)
  have r: "map_option (poolMode \<circ> pool) ?run = Some MODE_FIXED"
    "map_option dtor ?run = Some Alive"
    "map_option (worker_of 0) ?run
       = Some (Some \<lparr> loc = Executing 5, lastTime = 0, notified = False \<rparr>)"
    "map_option (curThreadSize \<circ> pool) ?run = Some 1"
    by (simp_all add: eval_defs worker_of_def del: fire.simps(1))
  then obtain s where s: "?run = Some s"
    by (cases ?run) auto
  note fixed_run = cached_idle_reclaim [OF t q, THEN conjunct2, THEN conjunct2, THEN conjunct2,
      of "[]" 1 "[Enter 0 0, Acquire 0, Wake 0 no_timeout 5, Submit (5::nat), Wake 0 no_timeout 6]" s]
  show ?thesis
    using t q q' f r s fixed_run
      cached_idle_reclaim [OF t q, THEN conjunct1, of 1 0 61000000000]
      cached_idle_reclaim [OF t q, THEN conjunct1, of 1 0 59999999999]
      cached_idle_reclaim [OF t q', THEN conjunct2, THEN conjunct2, THEN conjunct1, of 0]
    by (simp add: cached_pool_def ThreadPool_new_def e)
qed


end
